theory Spec2Isabelle
  imports Main "HOL-Library.Multiset"
begin

section \<open>JavaScript values\<close>

text \<open>
  The values the store handles. A function value is named by an identifier: two function
  values are the same function exactly when the identifiers agree, which is what
  \<^verbatim>\<open>===\<close> and \<^verbatim>\<open>indexOf\<close> decide on functions. An object carries
  its prototype (\<^verbatim>\<open>Object.getPrototypeOf\<close>, \<open>None\<close> for \<^verbatim>\<open>null\<close>) and its own
  properties. A prototype chain is finite and has no cycle, so the objects on one chain are
  pairwise distinct; a term never equals one of its proper subterms, so equality of terms
  agrees with object identity between an object on a chain and the root of that chain,
  the only place where the source compares objects.
\<close>

datatype jsval =
    Undefined
  | Null
  | Boolean bool
  | Number int
  | String string
  | Func nat
  | Object jsobj
and jsobj =
    JsObj (getPrototypeOf: "jsobj option") (ownProps: "(string \<times> jsval) list")

fun typeof :: "jsval \<Rightarrow> string" where
  "typeof Undefined = ''undefined''"
| "typeof Null = ''object''"
| "typeof (Boolean b) = ''boolean''"
| "typeof (Number n) = ''number''"
| "typeof (String s) = ''string''"
| "typeof (Func f) = ''function''"
| "typeof (Object obj) = ''object''"

text \<open>Property read \<^verbatim>\<open>obj.key\<close>: own properties first, then up the prototype chain.\<close>

fun getProp :: "jsobj \<Rightarrow> string \<Rightarrow> jsval" where
  "getProp (JsObj proto props) key =
     (case map_of props key of
        Some v \<Rightarrow> v
      | None \<Rightarrow> (case proto of None \<Rightarrow> Undefined | Some p \<Rightarrow> getProp p key))"

text \<open>
  \<^verbatim>\<open>let proto = obj; while (Object.getPrototypeOf(proto) !== null) proto = Object.getPrototypeOf(proto)\<close>
\<close>

fun protoRoot :: "jsobj \<Rightarrow> jsobj" where
  "protoRoot (JsObj None props) = JsObj None props"
| "protoRoot (JsObj (Some p) props) = protoRoot p"

definition isPlainObject :: "jsval \<Rightarrow> bool" where
  "isPlainObject obj =
     (if typeof obj \<noteq> ''object'' \<or> obj = Null then False
      else (case obj of
              Object ob \<Rightarrow> getPrototypeOf ob = Some (protoRoot ob)
            | _ \<Rightarrow> False))"

text \<open>The object literal \<^verbatim>\<open>{ type: t }\<close>: its prototype is \<^verbatim>\<open>Object.prototype\<close>.\<close>

definition objectPrototype :: jsobj where
  "objectPrototype = JsObj None []"

definition objectLiteral :: "(string \<times> jsval) list \<Rightarrow> jsval" where
  "objectLiteral props = Object (JsObj (Some objectPrototype) props)"

section \<open>Errors\<close>

text \<open>
  One constructor for each \<^verbatim>\<open>throw new Error(...)\<close> of the source, one for a value
  thrown by the consumer's own code, and one for the engine's TypeError on calling what is
  not a function.
\<close>

datatype error =
    SeveralEnhancers
  | EnhancerNotFunction
  | ReducerNotFunction
  | GetStateWhileDispatching
  | ListenerNotFunction
  | SubscribeWhileDispatching
  | UnsubscribeWhileDispatching
  | ActionNotPlainObject
  | ActionTypeUndefined
  | ReducersMayNotDispatch
  | NextReducerNotFunction
  | DispatchingWhileConstructing
  | NotCallable
  | Thrown jsval

datatype error_kind =
    InvalidArgument | InvalidAction | IllegalStateAccess | PrematureDispatch | ConsumerError

fun kind_of :: "error \<Rightarrow> error_kind" where
  "kind_of SeveralEnhancers = InvalidArgument"
| "kind_of EnhancerNotFunction = InvalidArgument"
| "kind_of ReducerNotFunction = InvalidArgument"
| "kind_of ListenerNotFunction = InvalidArgument"
| "kind_of NextReducerNotFunction = InvalidArgument"
| "kind_of ActionNotPlainObject = InvalidAction"
| "kind_of ActionTypeUndefined = InvalidAction"
| "kind_of GetStateWhileDispatching = IllegalStateAccess"
| "kind_of SubscribeWhileDispatching = IllegalStateAccess"
| "kind_of UnsubscribeWhileDispatching = IllegalStateAccess"
| "kind_of ReducersMayNotDispatch = IllegalStateAccess"
| "kind_of DispatchingWhileConstructing = PrematureDispatch"
| "kind_of NotCallable = ConsumerError"
| "kind_of (Thrown v) = ConsumerError"

section \<open>The store\<close>

text \<open>
  The variables closed over by the functions of \<^verbatim>\<open>createStore\<close>. The two listener
  variables hold references to arrays, and the source compares the references
  (\<^verbatim>\<open>nextListeners === currentListeners\<close>), so the arrays live in \<open>arrays\<close> and the two
  variables hold indices into it. Every call of \<^verbatim>\<open>subscribe\<close> creates a closure
  with its own \<^verbatim>\<open>listener\<close> and \<^verbatim>\<open>isSubscribed\<close>; \<open>subscriptions\<close>
  holds these pairs, and the position of a pair names the \<^verbatim>\<open>unsubscribe\<close> function
  of that call.
\<close>

record store =
  currentReducer :: jsval
  currentState :: jsval
  arrays :: "jsval list list"
  currentListeners :: nat
  nextListeners :: nat
  isDispatching :: bool
  subscriptions :: "(jsval \<times> bool) list"

definition ensureCanMutateNextListeners :: "store \<Rightarrow> store" where
  "ensureCanMutateNextListeners s =
     (if nextListeners s = currentListeners s
      then s\<lparr>arrays := arrays s @ [arrays s ! currentListeners s],
             nextListeners := length (arrays s)\<rparr>
      else s)"

definition getState :: "store \<Rightarrow> error + jsval" where
  "getState s = (if isDispatching s then Inl GetStateWhileDispatching else Inr (currentState s))"

definition subscribe :: "store \<Rightarrow> jsval \<Rightarrow> (error + nat) \<times> store" where
  "subscribe s listener =
     (if typeof listener \<noteq> ''function'' then (Inl ListenerNotFunction, s)
      else if isDispatching s then (Inl SubscribeWhileDispatching, s)
      else
        (let s1 = s\<lparr>subscriptions := subscriptions s @ [(listener, True)]\<rparr>;
             s2 = ensureCanMutateNextListeners s1;
             s3 = s2\<lparr>arrays := (arrays s2)[nextListeners s2 :=
                                     arrays s2 ! nextListeners s2 @ [listener]]\<rparr>
         in (Inr (length (subscriptions s)), s3)))"

text \<open>
  \<^verbatim>\<open>indexOf\<close> gives -1 when the value is absent; \<^verbatim>\<open>splice(index, 1)\<close> with a
  negative index counts from the end and removes at most one element. An unsubscribe
  function is named by the position of its subscription; a position that no subscription
  has is not a function, and calling it throws \<open>NotCallable\<close>.
\<close>

fun indexOf :: "'a list \<Rightarrow> 'a \<Rightarrow> int" where
  "indexOf [] x = -1"
| "indexOf (y # ys) x =
     (if y = x then 0 else (let i = indexOf ys x in if i < 0 then -1 else i + 1))"

definition splice1 :: "'a list \<Rightarrow> int \<Rightarrow> 'a list" where
  "splice1 xs index =
     (let len = int (length xs);
          start = (if index < 0 then max (len + index) 0 else min index len)
      in take (nat start) xs @ drop (nat start + 1) xs)"

definition unsubscribe :: "store \<Rightarrow> nat \<Rightarrow> (error + unit) \<times> store" where
  "unsubscribe s h =
     (if \<not> h < length (subscriptions s) then (Inl NotCallable, s)
      else
        (let listener = fst (subscriptions s ! h);
             isSubscribed = snd (subscriptions s ! h)
         in if \<not> isSubscribed then (Inr (), s)
            else if isDispatching s then (Inl UnsubscribeWhileDispatching, s)
            else
              (let s1 = s\<lparr>subscriptions := (subscriptions s)[h := (listener, False)]\<rparr>;
                   s2 = ensureCanMutateNextListeners s1;
                   index = indexOf (arrays s2 ! nextListeners s2) listener;
                   s3 = s2\<lparr>arrays := (arrays s2)[nextListeners s2 :=
                                           splice1 (arrays s2 ! nextListeners s2) index]\<rparr>
               in (Inr (), s3))))"

section \<open>Consumer code\<close>

text \<open>
  A reducer or a listener is the consumer's code. All it can do to the store is call the
  store's functions, so its body is a tree of such calls: each call names the function and
  its argument, and continues with what the call returned or threw (a
  \<^verbatim>\<open>try\<close>/\<^verbatim>\<open>catch\<close> around the call; a body that does not catch
  continues with \<open>Throw\<close> of the same error). \<open>CallUnsubscribe h\<close> calls the function
  returned by the \<open>h\<close>-th successful \<^verbatim>\<open>subscribe\<close>. A body keeps no variables
  of its own between calls: what it does is determined by its arguments and by what the
  store returns to it.
\<close>

datatype prog =
    Return jsval
  | Throw error
  | CallGetState "error + jsval \<Rightarrow> prog"
  | CallSubscribe jsval "error + nat \<Rightarrow> prog"
  | CallUnsubscribe nat "error + unit \<Rightarrow> prog"
  | CallDispatch jsval "error + jsval \<Rightarrow> prog"
  | CallReplaceReducer jsval "error + unit \<Rightarrow> prog"

text \<open>
  Modelled from the spec: \<^verbatim>\<open>utils/actionTypes\<close> is not among the sources. The spec
  gives two reserved discriminants, one for the bootstrap round and one for the round after
  the reducer is replaced; \<open>INIT\<close> and \<open>REPLACE\<close> are these two strings. \<open>body\<close> gives
  the code of each function value, as it runs on a list of arguments.
\<close>

record env =
  body :: "nat \<Rightarrow> jsval list \<Rightarrow> prog"
  INIT :: string
  REPLACE :: string

fun callFunction :: "env \<Rightarrow> jsval \<Rightarrow> jsval list \<Rightarrow> prog" where
  "callFunction env (Func f) args = body env f args"
| "callFunction env v args = Throw NotCallable"

text \<open>\<^verbatim>\<open>action.type\<close>; the source reads it only once \<open>action\<close> is known to be an object.\<close>

fun member :: "jsval \<Rightarrow> string \<Rightarrow> jsval" where
  "member (Object ob) key = getProp ob key"
| "member v key = Undefined"

text \<open>
  A listener may dispatch, and that round calls listeners again, so nothing bounds the
  depth of the calls: the functions below count their calls down from a bound and give
  \<open>None\<close> when it is used up. \<open>dispatch\<close> and the loop over the listeners also give the
  listeners that this round called (line 282), in the order of the calls.
\<close>

fun exec :: "nat \<Rightarrow> env \<Rightarrow> store \<Rightarrow> prog \<Rightarrow> ((error + jsval) \<times> store) option"
and dispatch :: "nat \<Rightarrow> env \<Rightarrow> store \<Rightarrow> jsval \<Rightarrow> ((error + jsval) \<times> store \<times> jsval list) option"
and notifyListeners ::
      "nat \<Rightarrow> env \<Rightarrow> store \<Rightarrow> nat \<Rightarrow> nat \<Rightarrow> ((error + unit) \<times> store \<times> jsval list) option"
and replaceReducer :: "nat \<Rightarrow> env \<Rightarrow> store \<Rightarrow> jsval \<Rightarrow> ((error + unit) \<times> store) option"
where
  "exec 0 env s p = None"
| "exec (Suc n) env s (Return v) = Some (Inr v, s)"
| "exec (Suc n) env s (Throw e) = Some (Inl e, s)"
| "exec (Suc n) env s (CallGetState k) = exec n env s (k (getState s))"
| "exec (Suc n) env s (CallSubscribe listener k) =
     (case subscribe s listener of (r, s') \<Rightarrow> exec n env s' (k r))"
| "exec (Suc n) env s (CallUnsubscribe h k) =
     (case unsubscribe s h of (r, s') \<Rightarrow> exec n env s' (k r))"
| "exec (Suc n) env s (CallDispatch action k) =
     (case dispatch n env s action of
        None \<Rightarrow> None
      | Some (r, s', called) \<Rightarrow> exec n env s' (k r))"
| "exec (Suc n) env s (CallReplaceReducer nextReducer k) =
     (case replaceReducer n env s nextReducer of
        None \<Rightarrow> None
      | Some (r, s') \<Rightarrow> exec n env s' (k r))"
| "dispatch 0 env s action = None"
| "dispatch (Suc n) env s action =
     (if \<not> isPlainObject action then Some (Inl ActionNotPlainObject, s, [])
      else if typeof (member action ''type'') = ''undefined''
      then Some (Inl ActionTypeUndefined, s, [])
      else if isDispatching s then Some (Inl ReducersMayNotDispatch, s, [])
      else
        (case exec n env (s\<lparr>isDispatching := True\<rparr>)
                (callFunction env (currentReducer s) [currentState s, action]) of
           None \<Rightarrow> None
         | Some (Inl e, s1) \<Rightarrow> Some (Inl e, s1\<lparr>isDispatching := False\<rparr>, [])
         | Some (Inr v, s1) \<Rightarrow>
             (let s2 = s1\<lparr>currentState := v, isDispatching := False\<rparr>;
                  s3 = s2\<lparr>currentListeners := nextListeners s2\<rparr>;
                  listeners = currentListeners s3
              in case notifyListeners n env s3 listeners 0 of
                   None \<Rightarrow> None
                 | Some (Inl e, s4, called) \<Rightarrow> Some (Inl e, s4, called)
                 | Some (Inr u, s4, called) \<Rightarrow> Some (Inr action, s4, called))))"
| "notifyListeners 0 env s listeners i = None"
| "notifyListeners (Suc n) env s listeners i =
     (if i < length (arrays s ! listeners)
      then
        (let listener = arrays s ! listeners ! i
         in case exec n env s (callFunction env listener []) of
              None \<Rightarrow> None
            | Some (Inl e, s') \<Rightarrow> Some (Inl e, s', [listener])
            | Some (Inr v, s') \<Rightarrow>
                (case notifyListeners n env s' listeners (i + 1) of
                   None \<Rightarrow> None
                 | Some (r, s'', called) \<Rightarrow> Some (r, s'', listener # called)))
      else Some (Inr (), s, []))"
| "replaceReducer 0 env s nextReducer = None"
| "replaceReducer (Suc n) env s nextReducer =
     (if typeof nextReducer \<noteq> ''function'' then Some (Inl NextReducerNotFunction, s)
      else
        (case dispatch n env (s\<lparr>currentReducer := nextReducer\<rparr>)
                (objectLiteral [(''type'', String (REPLACE env))]) of
           None \<Rightarrow> None
         | Some (Inl e, s', called) \<Rightarrow> Some (Inl e, s')
         | Some (Inr v, s', called) \<Rightarrow> Some (Inr (), s')))"

section \<open>Construction\<close>

text \<open>
  An argument that the caller leaves out reads as \<^verbatim>\<open>undefined\<close>, also through
  \<^verbatim>\<open>arguments[3]\<close>.
\<close>

definition arg :: "jsval list \<Rightarrow> nat \<Rightarrow> jsval" where
  "arg args i = (if i < length args then args ! i else Undefined)"

text \<open>
  What construction returns: the store built by \<^verbatim>\<open>createStore\<close> itself, or whatever
  the enhancer returns. An enhancer is consumer code of a higher order: \<open>enh f create args\<close>
  is \<^verbatim>\<open>f(create)(...args)\<close> for the function value \<open>Func f\<close>. The enhancer may call
  \<open>create\<close>, which is \<^verbatim>\<open>createStore\<close> again, so construction counts down the same
  bound as \<open>dispatch\<close>.
\<close>

datatype 'r created = Store store | Enhanced 'r

type_synonym 'r construct = "jsval list \<Rightarrow> (error + 'r created) option"

fun callEnhancer ::
  "(nat \<Rightarrow> 'r construct \<Rightarrow> 'r construct) \<Rightarrow> jsval \<Rightarrow> 'r construct \<Rightarrow> 'r construct" where
  "callEnhancer enh (Func f) create args = enh f create args"
| "callEnhancer enh v create args = Some (Inl NotCallable)"

fun createStore ::
  "nat \<Rightarrow> env \<Rightarrow> (nat \<Rightarrow> 'r construct \<Rightarrow> 'r construct) \<Rightarrow> 'r construct" where
  "createStore 0 env enh args = None"
| "createStore (Suc n) env enh args =
     (let reducer = arg args 0; preloadedState = arg args 1; enhancer = arg args 2
      in if (typeof preloadedState = ''function'' \<and> typeof enhancer = ''function'') \<or>
            (typeof enhancer = ''function'' \<and> typeof (arg args 3) = ''function'')
         then Some (Inl SeveralEnhancers)
         else
           (let (enhancer, preloadedState) =
                  (if typeof preloadedState = ''function'' \<and> typeof enhancer = ''undefined''
                   then (preloadedState, Undefined)
                   else (enhancer, preloadedState))
            in if typeof enhancer \<noteq> ''undefined''
               then
                 (if typeof enhancer \<noteq> ''function'' then Some (Inl EnhancerNotFunction)
                  else callEnhancer enh enhancer (\<lambda>args'. createStore n env enh args')
                         [reducer, preloadedState])
               else if typeof reducer \<noteq> ''function'' then Some (Inl ReducerNotFunction)
               else
                 (let s = \<lparr>currentReducer = reducer, currentState = preloadedState,
                           arrays = [Nil], currentListeners = 0, nextListeners = 0,
                           isDispatching = False, subscriptions = []\<rparr>
                  in case dispatch n env s (objectLiteral [(''type'', String (INIT env))]) of
                       None \<Rightarrow> None
                     | Some (Inl e, s', called) \<Rightarrow> Some (Inl e)
                     | Some (Inr v, s', called) \<Rightarrow> Some (Inr (Store s')))))"

section \<open>The composer\<close>

text \<open>
  Code above the store: interceptor factories, interceptors and the dispatch functions
  they build. It reaches the store only through \<^verbatim>\<open>middlewareAPI\<close> and through
  \<^verbatim>\<open>next\<close>, so a body is again a tree of calls: \<open>ApiGetState\<close> is
  \<^verbatim>\<open>middlewareAPI.getState()\<close>, \<open>ApiDispatch\<close> is
  \<^verbatim>\<open>middlewareAPI.dispatch(action)\<close>, and \<open>StoreDispatch\<close> is the store's own
  \<^verbatim>\<open>dispatch\<close>, the rightmost \<^verbatim>\<open>next\<close>. A function value of this layer is a
  HOL function from its arguments to the body it runs, so calling it is running that body.
\<close>

datatype 'r mprog =
    MReturn 'r
  | MThrow error
  | ApiGetState "error + jsval \<Rightarrow> 'r mprog"
  | ApiDispatch jsval "error + jsval \<Rightarrow> 'r mprog"
  | StoreDispatch jsval "error + jsval \<Rightarrow> 'r mprog"

text \<open>Run \<open>p\<close>, then continue with what it returned or threw.\<close>

primrec mtry :: "'a mprog \<Rightarrow> (error + 'a \<Rightarrow> 'b mprog) \<Rightarrow> 'b mprog" where
  "mtry (MReturn v) f = f (Inr v)"
| "mtry (MThrow e) f = f (Inl e)"
| "mtry (ApiGetState k) f = ApiGetState (\<lambda>r. mtry (k r) f)"
| "mtry (ApiDispatch a k) f = ApiDispatch a (\<lambda>r. mtry (k r) f)"
| "mtry (StoreDispatch a k) f = StoreDispatch a (\<lambda>r. mtry (k r) f)"

text \<open>Run \<open>p\<close> and pass its value on; what \<open>p\<close> throws is not caught.\<close>

definition mbind :: "'a mprog \<Rightarrow> ('a \<Rightarrow> 'b mprog) \<Rightarrow> 'b mprog" where
  "mbind p f = mtry p (\<lambda>r. case r of Inl e \<Rightarrow> MThrow e | Inr v \<Rightarrow> f v)"

text \<open>
  \<^verbatim>\<open>compose(...funcs)\<close>. A function takes the list of its arguments.
  \<^verbatim>\<open>arg => arg\<close> returns its first argument, and \<open>undef\<close>, the value
  \<^verbatim>\<open>undefined\<close>, when it is called with none. \<^verbatim>\<open>reduce\<close> without an initial
  value starts from \<^verbatim>\<open>funcs[0]\<close> and runs over the rest from the left;
  \<^verbatim>\<open>(...args) => a(b(...args))\<close> calls \<open>b\<close> on all the arguments and \<open>a\<close> on the
  one value that \<open>b\<close> returned.
\<close>

definition compose :: "'a \<Rightarrow> ('a list \<Rightarrow> 'a mprog) list \<Rightarrow> ('a list \<Rightarrow> 'a mprog)" where
  "compose undef funcs =
     (if length funcs = 0 then (\<lambda>args. MReturn (case args of [] \<Rightarrow> undef | first # rest \<Rightarrow> first))
      else if length funcs = 1 then funcs ! 0
      else foldl (\<lambda>a b. (\<lambda>args. mbind (b args) (\<lambda>r. a [r]))) (funcs ! 0) (drop 1 funcs))"

text \<open>
  The spec's words for the composer: right-to-left application, the rightmost function on
  the original arguments and every other function on the one value returned by its right
  neighbour.
\<close>

fun rightToLeft :: "('a list \<Rightarrow> 'a mprog) \<Rightarrow> ('a list \<Rightarrow> 'a mprog) list \<Rightarrow> ('a list \<Rightarrow> 'a mprog)" where
  "rightToLeft f [] = f"
| "rightToLeft f (g # gs) = (\<lambda>args. mbind (rightToLeft g gs args) (\<lambda>r. f [r]))"

section \<open>The enhancer chain builder\<close>

text \<open>
  The variables closed over by the functions that \<^verbatim>\<open>applyMiddleware\<close> creates: the
  store it built and the variable \<^verbatim>\<open>dispatch\<close>, which holds a function.
  \<open>forwarded\<close> is not a variable of the source: it records, for every call of
  \<^verbatim>\<open>middlewareAPI.dispatch\<close>, the argument and the body that the call ran, which is the
  body of the function held by \<^verbatim>\<open>dispatch\<close> at that moment. Nothing reads it.
\<close>

type_synonym dispatchFn = "jsval \<Rightarrow> jsval mprog"

type_synonym interceptor = "dispatchFn list \<Rightarrow> dispatchFn mprog"

record mstate =
  store :: store
  dispatchVar :: dispatchFn
  forwarded :: "(jsval \<times> jsval mprog) list"

fun mexec :: "nat \<Rightarrow> env \<Rightarrow> mstate \<Rightarrow> 'r mprog \<Rightarrow> ((error + 'r) \<times> mstate) option" where
  "mexec 0 env st p = None"
| "mexec (Suc n) env st (MReturn v) = Some (Inr v, st)"
| "mexec (Suc n) env st (MThrow e) = Some (Inl e, st)"
| "mexec (Suc n) env st (ApiGetState k) = mexec n env st (k (getState (store st)))"
| "mexec (Suc n) env st (ApiDispatch a k) =
     mexec n env (st\<lparr>forwarded := forwarded st @ [(a, dispatchVar st a)]\<rparr>)
       (mtry (dispatchVar st a) k)"
| "mexec (Suc n) env st (StoreDispatch a k) =
     (case dispatch n env (store st) a of
        None \<Rightarrow> None
      | Some (r, s', called) \<Rightarrow> mexec n env (st\<lparr>store := s'\<rparr>) (k r))"

text \<open>The placeholder of lines 22 to 27, and \<^verbatim>\<open>store.dispatch\<close> as a function value.\<close>

definition placeholder :: dispatchFn where
  "placeholder = (\<lambda>action. MThrow DispatchingWhileConstructing)"

definition storeDispatch :: dispatchFn where
  "storeDispatch =
     (\<lambda>action. StoreDispatch action (\<lambda>r. case r of Inl e \<Rightarrow> MThrow e | Inr v \<Rightarrow> MReturn v))"

text \<open>
  \<^verbatim>\<open>middlewares.map(middleware => middleware(middlewareAPI))\<close>: a middleware is given
  by the body that \<^verbatim>\<open>middleware(middlewareAPI)\<close> runs, which returns an interceptor.
\<close>

fun mapMiddlewares ::
  "nat \<Rightarrow> env \<Rightarrow> mstate \<Rightarrow> interceptor mprog list \<Rightarrow> ((error + interceptor list) \<times> mstate) option"
where
  "mapMiddlewares n env st [] = Some (Inr [], st)"
| "mapMiddlewares n env st (middleware # rest) =
     (case mexec n env st middleware of
        None \<Rightarrow> None
      | Some (Inl e, st') \<Rightarrow> Some (Inl e, st')
      | Some (Inr i, st') \<Rightarrow>
          (case mapMiddlewares n env st' rest of
             None \<Rightarrow> None
           | Some (Inl e, st'') \<Rightarrow> Some (Inl e, st'')
           | Some (Inr chain, st'') \<Rightarrow> Some (Inr (i # chain), st'')))"

text \<open>
  Lines 22 to 51, on the store that \<^verbatim>\<open>createStore(...args)\<close> returned. The result is
  the \<^verbatim>\<open>dispatch\<close> member of the returned object, with the variables as they stand;
  when a step throws, the variables are as the throw left them. A function of this layer
  that is called as a function while it is \<^verbatim>\<open>undefined\<close> throws \<open>NotCallable\<close>.
\<close>

definition enhance ::
  "nat \<Rightarrow> env \<Rightarrow> interceptor mprog list \<Rightarrow> store \<Rightarrow> ((error + dispatchFn) \<times> mstate) option" where
  "enhance n env middlewares s =
     (let st = \<lparr>store = s, dispatchVar = placeholder, forwarded = []\<rparr>
      in case mapMiddlewares n env st middlewares of
           None \<Rightarrow> None
         | Some (Inl e, st1) \<Rightarrow> Some (Inl e, st1)
         | Some (Inr chain, st1) \<Rightarrow>
             (case mexec n env st1
                     (compose (\<lambda>action. MThrow NotCallable) chain [storeDispatch]) of
                None \<Rightarrow> None
              | Some (Inl e, st2) \<Rightarrow> Some (Inl e, st2)
              | Some (Inr d, st2) \<Rightarrow> Some (Inr d, st2\<lparr>dispatchVar := d\<rparr>)))"

text \<open>
  \<^verbatim>\<open>applyMiddleware(...middlewares)(createStore)(...args)\<close>, for a
  \<^verbatim>\<open>createStore\<close> that returns a store of the kind built above.
\<close>

definition applyMiddleware ::
  "nat \<Rightarrow> env \<Rightarrow> interceptor mprog list \<Rightarrow> (jsval list \<Rightarrow> (error + store) option) \<Rightarrow>
     jsval list \<Rightarrow> (error + dispatchFn \<times> mstate) option" where
  "applyMiddleware n env middlewares create args =
     (case create args of
        None \<Rightarrow> None
      | Some (Inl e) \<Rightarrow> Some (Inl e)
      | Some (Inr s) \<Rightarrow>
          (case enhance n env middlewares s of
             None \<Rightarrow> None
           | Some (Inl e, st) \<Rightarrow> Some (Inl e)
           | Some (Inr d, st) \<Rightarrow> Some (Inr (d, st))))"

section \<open>Notions used by the properties\<close>

text \<open>The pending and the committed subscriber sequence.\<close>

definition pending :: "store \<Rightarrow> jsval list" where
  "pending s = arrays s ! nextListeners s"

definition committed :: "store \<Rightarrow> jsval list" where
  "committed s = arrays s ! currentListeners s"

text \<open>The listeners of the subscriptions that have not been revoked.\<close>

definition liveListeners :: "store \<Rightarrow> jsval list" where
  "liveListeners s = map fst (filter snd (subscriptions s))"

text \<open>
  What holds of the variables of every store: the two listener variables refer to arrays
  that exist, and the pending sequence holds one entry for each subscription that has not
  been revoked.
\<close>

definition store_inv :: "store \<Rightarrow> bool" where
  "store_inv s \<longleftrightarrow>
     currentListeners s < length (arrays s) \<and> nextListeners s < length (arrays s) \<and>
     mset (pending s) = mset (liveListeners s)"


definition validAction :: "jsval \<Rightarrow> bool" where
  "validAction action \<longleftrightarrow> isPlainObject action \<and> typeof (member action ''type'') \<noteq> ''undefined''"

text \<open>The unsubscribe function \<open>h\<close> exists and has not been revoked; it has been revoked.\<close>

definition live :: "store \<Rightarrow> nat \<Rightarrow> bool" where
  "live s h \<longleftrightarrow> h < length (subscriptions s) \<and> snd (subscriptions s ! h)"

definition revoked :: "store \<Rightarrow> nat \<Rightarrow> bool" where
  "revoked s h \<longleftrightarrow> h < length (subscriptions s) \<and> \<not> snd (subscriptions s ! h)"

text \<open>
  A caller that dispatches the actions one after the other, gives up at the first
  dispatch that throws, and reads the state at the end.
\<close>

fun session :: "jsval list \<Rightarrow> prog" where
  "session [] = CallGetState (\<lambda>r. case r of Inl e \<Rightarrow> Throw e | Inr v \<Rightarrow> Return v)"
| "session (action # rest) =
     CallDispatch action (\<lambda>r. case r of Inl e \<Rightarrow> Throw e | Inr v \<Rightarrow> session rest)"

text \<open>
  The variable \<^verbatim>\<open>dispatch\<close> still holds the placeholder, and every call of
  \<^verbatim>\<open>middlewareAPI.dispatch\<close> so far ran the placeholder's body.
\<close>

definition premature :: "mstate \<Rightarrow> bool" where
  "premature st \<longleftrightarrow>
     dispatchVar st = placeholder \<and>
     (\<forall>x \<in> set (forwarded st). snd x = MThrow DispatchingWhileConstructing)"

text \<open>No function of the consumer calls the store: each returns or throws at once.\<close>

definition silent :: "env \<Rightarrow> bool" where
  "silent env \<longleftrightarrow>
     (\<forall>l args. (\<exists>v. body env l args = Return v) \<or> (\<exists>e. body env l args = Throw e))"

text \<open>A store with reducer \<open>Func f\<close> that is idle and has no subscriber.\<close>

definition quiet :: "store \<Rightarrow> nat \<Rightarrow> bool" where
  "quiet s f \<longleftrightarrow>
     currentReducer s = Func f \<and> \<not> isDispatching s \<and> arrays s ! nextListeners s = []"

section \<open>A small store as an example\<close>

text \<open>
  Function 0 is the reducer \<^verbatim>\<open>(s = 0, a) => a.type === 'INC' ? s + 1 : s\<close>.
  Function 1 is a listener that subscribes function 2 and then calls the unsubscribe
  function of the first subscription, which is its own; function 2 is a listener that does
  nothing. Function 3 is a reducer that calls \<^verbatim>\<open>dispatch\<close> on \<^verbatim>\<open>NESTED\<close> and
  lets the error pass, throws on \<^verbatim>\<open>BOOM\<close>, and returns the state otherwise.
\<close>

definition incAction :: jsval where
  "incAction = objectLiteral [(''type'', String ''INC'')]"

definition nestedAction :: jsval where
  "nestedAction = objectLiteral [(''type'', String ''NESTED'')]"

definition boomAction :: jsval where
  "boomAction = objectLiteral [(''type'', String ''BOOM'')]"

definition exampleBody :: "nat \<Rightarrow> jsval list \<Rightarrow> prog" where
  "exampleBody f args =
     (if f = 0 then
        (let s = (case arg args 0 of Undefined \<Rightarrow> Number 0 | v \<Rightarrow> v)
         in if member (arg args 1) ''type'' = String ''INC''
            then (case s of Number k \<Rightarrow> Return (Number (k + 1)) | v \<Rightarrow> Throw (Thrown v))
            else Return s)
      else if f = 1 then
        CallSubscribe (Func 2) (\<lambda>r. CallUnsubscribe 0 (\<lambda>r. Return Undefined))
      else if f = 2 then Return Undefined
      else if member (arg args 1) ''type'' = String ''NESTED'' then
        CallDispatch incAction (\<lambda>r. case r of Inl e \<Rightarrow> Throw e | Inr v \<Rightarrow> Return v)
      else if member (arg args 1) ''type'' = String ''BOOM'' then Throw (Thrown (String ''boom''))
      else Return (arg args 0))"

definition exampleEnv :: env where
  "exampleEnv = \<lparr>body = exampleBody, INIT = ''@@redux/INIT'', REPLACE = ''@@redux/REPLACE''\<rparr>"

text \<open>A store as construction leaves it, with reducer \<open>r\<close> and state \<open>v\<close>.\<close>

definition freshStore :: "jsval \<Rightarrow> jsval \<Rightarrow> store" where
  "freshStore r v =
     \<lparr>currentReducer = r, currentState = v, arrays = [Nil], currentListeners = 0,
      nextListeners = 0, isDispatching = False, subscriptions = []\<rparr>"

text \<open>
  The reducer of function 0 as a function, and two enhancers: function 7 is
  \<^verbatim>\<open>create => (reducer, state) => create(reducer, 5)\<close>, and function 8 returns an
  object of its own without calling \<^verbatim>\<open>create\<close>.
\<close>

definition counter :: "jsval \<Rightarrow> jsval \<Rightarrow> jsval" where
  "counter s a =
     (let s' = (case s of Undefined \<Rightarrow> Number 0 | v \<Rightarrow> v)
      in if member a ''type'' = String ''INC''
         then (case s' of Number k \<Rightarrow> Number (k + 1) | v \<Rightarrow> v)
         else s')"

definition exampleEnhancer :: "nat \<Rightarrow> unit construct \<Rightarrow> unit construct" where
  "exampleEnhancer f create args =
     (if f = 7 then create [arg args 0, Number 5]
      else if f = 8 then Some (Inr (Enhanced ()))
      else Some (Inl NotCallable))"

text \<open>The small environment with every function but the reducer replaced by one that returns.\<close>

definition silentEnv :: env where
  "silentEnv = exampleEnv\<lparr>body := (\<lambda>f args. if f = 0 then exampleBody 0 args else Return Undefined)\<rparr>"

text \<open>
  Two middlewares. \<^verbatim>\<open>next => action => next(action)\<close> is the interceptor of both;
  the first calls \<^verbatim>\<open>middlewareAPI.dispatch\<close> while it is being constructed and
  catches what the call throws, the second is
  \<^verbatim>\<open>api => next => action => next(action)\<close>.
\<close>

definition passThrough :: interceptor where
  "passThrough args =
     MReturn (\<lambda>action. case args of [] \<Rightarrow> MThrow NotCallable | next # rest \<Rightarrow> next action)"

definition exampleMiddlewares :: "interceptor mprog list" where
  "exampleMiddlewares = [ApiDispatch incAction (\<lambda>r. MReturn passThrough), MReturn passThrough]"

section \<open>Unfolding one call\<close>


lemma typeof_function: "typeof v = ''function'' \<longleftrightarrow> (\<exists>f. v = Func f)"
  by (cases v) simp_all

lemma typeof_undefined: "typeof v = ''undefined'' \<longleftrightarrow> v = Undefined"
  by (cases v) simp_all

lemmas round_simps = dispatch.simps(2) notifyListeners.simps(2) replaceReducer.simps(2)

declare round_simps [simp del]

lemma dispatch_SucE:
  assumes "dispatch (Suc n) env s a = Some (r, s', c)"
  obtains
    (rejected) e where "r = Inl e" "s' = s" "c = []"
      "\<not> isPlainObject a \<or> typeof (member a ''type'') = ''undefined'' \<or> isDispatching s"
  | (threw) e s1 where
      "isPlainObject a" "typeof (member a ''type'') \<noteq> ''undefined''" "\<not> isDispatching s"
      "exec n env (s\<lparr>isDispatching := True\<rparr>)
         (callFunction env (currentReducer s) [currentState s, a]) = Some (Inl e, s1)"
      "r = Inl e" "s' = s1\<lparr>isDispatching := False\<rparr>" "c = []"
  | (notified) v s1 r2 where
      "isPlainObject a" "typeof (member a ''type'') \<noteq> ''undefined''" "\<not> isDispatching s"
      "exec n env (s\<lparr>isDispatching := True\<rparr>)
         (callFunction env (currentReducer s) [currentState s, a]) = Some (Inr v, s1)"
      "notifyListeners n env
         (s1\<lparr>currentState := v, isDispatching := False, currentListeners := nextListeners s1\<rparr>)
         (nextListeners s1) 0 = Some (r2, s', c)"
      "r = (case r2 of Inl e \<Rightarrow> Inl e | Inr u \<Rightarrow> Inr a)"
  using assms
  by (auto simp: round_simps Let_def split: if_splits option.splits sum.splits)

lemma notifyListeners_SucE:
  assumes "notifyListeners (Suc n) env s l i = Some (r, s', c)"
  obtains
    (finished) "\<not> i < length (arrays s ! l)" "r = Inr ()" "s' = s" "c = []"
  | (threw) e where "i < length (arrays s ! l)"
      "exec n env s (callFunction env (arrays s ! l ! i) []) = Some (Inl e, s')"
      "r = Inl e" "c = [arrays s ! l ! i]"
  | (continued) v s1 c' where "i < length (arrays s ! l)"
      "exec n env s (callFunction env (arrays s ! l ! i) []) = Some (Inr v, s1)"
      "notifyListeners n env s1 l (i + 1) = Some (r, s', c')"
      "c = arrays s ! l ! i # c'"
  using assms
  by (auto simp: round_simps Let_def split: if_splits option.splits sum.splits)

lemma replaceReducer_SucE:
  assumes "replaceReducer (Suc n) env s f = Some (r, s')"
  obtains
    (rejected) "typeof f \<noteq> ''function''" "r = Inl NextReducerNotFunction" "s' = s"
  | (dispatched) r1 c where "typeof f = ''function''"
      "dispatch n env (s\<lparr>currentReducer := f\<rparr>)
         (objectLiteral [(''type'', String (REPLACE env))]) = Some (r1, s', c)"
      "r = (case r1 of Inl e \<Rightarrow> Inl e | Inr v \<Rightarrow> Inr ())"
  using assms
  by (auto simp: round_simps split: if_splits option.splits sum.splits)

lemma exec_SucE:
  assumes "exec (Suc n) env s p = Some (r, s')"
  obtains
    (returned) v where "p = Return v" "r = Inr v" "s' = s"
  | (thrown) e where "p = Throw e" "r = Inl e" "s' = s"
  | (getState) k where "p = CallGetState k" "exec n env s (k (getState s)) = Some (r, s')"
  | (subscribe) l k where "p = CallSubscribe l k"
      "exec n env (snd (subscribe s l)) (k (fst (subscribe s l))) = Some (r, s')"
  | (unsubscribe) h k where "p = CallUnsubscribe h k"
      "exec n env (snd (unsubscribe s h)) (k (fst (unsubscribe s h))) = Some (r, s')"
  | (dispatch) a k r1 s1 c where "p = CallDispatch a k"
      "dispatch n env s a = Some (r1, s1, c)" "exec n env s1 (k r1) = Some (r, s')"
  | (replaceReducer) f k r1 s1 where "p = CallReplaceReducer f k"
      "replaceReducer n env s f = Some (r1, s1)" "exec n env s1 (k r1) = Some (r, s')"
  using assms
  by (cases p) (auto simp: case_prod_beta split: option.splits)

lemma run_preserves:
  assumes R: "\<And>s. P s s"
    and T: "\<And>s t u. P s t \<Longrightarrow> P t u \<Longrightarrow> P s u"
    and sub: "\<And>s l. P s (snd (subscribe s l))"
    and unsub: "\<And>s h. P s (snd (unsubscribe s h))"
    and flag: "\<And>s b. P s (s\<lparr>isDispatching := b\<rparr>)"
    and state: "\<And>s v. P s (s\<lparr>currentState := v\<rparr>)"
    and commit: "\<And>s. P s (s\<lparr>currentListeners := nextListeners s\<rparr>)"
    and setred: "\<And>s f. P s (s\<lparr>currentReducer := f\<rparr>)"
  shows "(\<forall>s p r s'. exec n env s p = Some (r, s') \<longrightarrow> P s s') \<and>
         (\<forall>s a r s' c. dispatch n env s a = Some (r, s', c) \<longrightarrow> P s s') \<and>
         (\<forall>s l i r s' c. notifyListeners n env s l i = Some (r, s', c) \<longrightarrow> P s s') \<and>
         (\<forall>s f r s'. replaceReducer n env s f = Some (r, s') \<longrightarrow> P s s')"
proof (induction n)
  case 0
  show ?case by simp
next
  case (Suc n)
  have E: "\<And>s p r s'. exec n env s p = Some (r, s') \<Longrightarrow> P s s'" using Suc by blast
  have D: "\<And>s a r s' c. dispatch n env s a = Some (r, s', c) \<Longrightarrow> P s s'" using Suc by blast
  have N: "\<And>s l i r s' c. notifyListeners n env s l i = Some (r, s', c) \<Longrightarrow> P s s'"
    using Suc by blast
  have Rr: "\<And>s f r s'. replaceReducer n env s f = Some (r, s') \<Longrightarrow> P s s'" using Suc by blast
  have e: "P s s'" if "exec (Suc n) env s p = Some (r, s')" for s p r s'
    using that
  proof (cases rule: exec_SucE)
    case (subscribe l k)
    from sub[of s l] E[OF subscribe(2)] show ?thesis by (rule T)
  next
    case (unsubscribe h k)
    from unsub[of s h] E[OF unsubscribe(2)] show ?thesis by (rule T)
  next
    case (dispatch a k r1 s1 c)
    from D[OF dispatch(2)] E[OF dispatch(3)] show ?thesis by (rule T)
  next
    case (replaceReducer f k r1 s1)
    from Rr[OF replaceReducer(2)] E[OF replaceReducer(3)] show ?thesis by (rule T)
  qed (auto simp: R E)
  have d: "P s s'" if "dispatch (Suc n) env s a = Some (r, s', c)" for s a r s' c
    using that
  proof (cases rule: dispatch_SucE)
    case (rejected e)
    then show ?thesis by (simp add: R)
  next
    case (threw e s1)
    have "P s s1" using flag[of s True] E[OF threw(4)] by (rule T)
    with flag[of s1 False] threw(6) show ?thesis by (auto intro: T)
  next
    case (notified v s1 r2)
    let ?s3 = "s1\<lparr>currentState := v, isDispatching := False,
                   currentListeners := nextListeners s1\<rparr>"
    have P1: "P s s1" using flag[of s True] E[OF notified(4)] by (rule T)
    have "P s1 (s1\<lparr>currentState := v\<rparr>)" by (rule state)
    moreover have "P (s1\<lparr>currentState := v\<rparr>) (s1\<lparr>currentState := v, isDispatching := False\<rparr>)"
      by (rule flag)
    moreover have "P (s1\<lparr>currentState := v, isDispatching := False\<rparr>) ?s3"
      using commit[of "s1\<lparr>currentState := v, isDispatching := False\<rparr>"] by simp
    ultimately have "P s1 ?s3" by (blast intro: T)
    with P1 N[OF notified(5)] show ?thesis by (blast intro: T)
  qed
  have nl: "P s s'" if "notifyListeners (Suc n) env s l i = Some (r, s', c)" for s l i r s' c
    using that
  proof (cases rule: notifyListeners_SucE)
    case finished
    then show ?thesis by (simp add: R)
  next
    case (threw e)
    then show ?thesis by (simp add: E)
  next
    case (continued v s1 c')
    from E[OF continued(2)] N[OF continued(3)] show ?thesis by (rule T)
  qed
  have rr: "P s s'" if "replaceReducer (Suc n) env s f = Some (r, s')" for s f r s'
    using that
  proof (cases rule: replaceReducer_SucE)
    case rejected
    then show ?thesis by (simp add: R)
  next
    case (dispatched r1 c)
    from setred[of s f] D[OF dispatched(2)] show ?thesis by (rule T)
  qed
  from e d nl rr show ?case by blast
qed

section \<open>A larger bound does not change a result\<close>

lemma more_fuel_step:
  "(\<forall>s p x. exec n env s p = Some x \<longrightarrow> exec (Suc n) env s p = Some x) \<and>
   (\<forall>s a r s' c. dispatch n env s a = Some (r, s', c) \<longrightarrow>
      dispatch (Suc n) env s a = Some (r, s', c)) \<and>
   (\<forall>s l i r s' c. notifyListeners n env s l i = Some (r, s', c) \<longrightarrow>
      notifyListeners (Suc n) env s l i = Some (r, s', c)) \<and>
   (\<forall>s f r s'. replaceReducer n env s f = Some (r, s') \<longrightarrow>
      replaceReducer (Suc n) env s f = Some (r, s'))"
proof (induction n)
  case 0
  show ?case by simp
next
  case (Suc n)
  have E: "\<And>s p x. exec n env s p = Some x \<Longrightarrow> exec (Suc n) env s p = Some x"
    using Suc by blast
  have D: "\<And>s a r s' c. dispatch n env s a = Some (r, s', c) \<Longrightarrow>
      dispatch (Suc n) env s a = Some (r, s', c)"
    using Suc by blast
  have N: "\<And>s l i r s' c. notifyListeners n env s l i = Some (r, s', c) \<Longrightarrow>
      notifyListeners (Suc n) env s l i = Some (r, s', c)"
    using Suc by blast
  have R: "\<And>s f r s'. replaceReducer n env s f = Some (r, s') \<Longrightarrow>
      replaceReducer (Suc n) env s f = Some (r, s')"
    using Suc by blast
  have e: "exec (Suc (Suc n)) env s p = Some x" if "exec (Suc n) env s p = Some x" for s p x
  proof (cases p)
    case (CallDispatch a k)
    with that obtain r1 s1 c where 1: "dispatch n env s a = Some (r1, s1, c)"
      and 2: "exec n env s1 (k r1) = Some x"
      by (auto split: option.splits)
    from D[OF 1] E[OF 2] CallDispatch show ?thesis by simp
  next
    case (CallReplaceReducer f k)
    with that obtain r1 s1 where 1: "replaceReducer n env s f = Some (r1, s1)"
      and 2: "exec n env s1 (k r1) = Some x"
      by (auto split: option.splits)
    from R[OF 1] E[OF 2] CallReplaceReducer show ?thesis by simp
  qed (use that E in \<open>auto split: prod.splits\<close>)
  have d: "dispatch (Suc (Suc n)) env s a = Some (r, s', c)"
    if "dispatch (Suc n) env s a = Some (r, s', c)" for s a r s' c
    using that
  proof (cases rule: dispatch_SucE)
    case (rejected e)
    with that show ?thesis by (auto simp: round_simps)
  next
    case (threw e s1)
    from E[OF threw(4)] threw show ?thesis by (simp add: round_simps)
  next
    case (notified v s1 r2)
    from E[OF notified(4)] N[OF notified(5)] notified show ?thesis
      by (cases r2) (simp_all add: round_simps)
  qed
  have nl: "notifyListeners (Suc (Suc n)) env s l i = Some (r, s', c)"
    if "notifyListeners (Suc n) env s l i = Some (r, s', c)" for s l i r s' c
    using that
  proof (cases rule: notifyListeners_SucE)
    case finished
    then show ?thesis by (simp add: round_simps)
  next
    case (threw e)
    from E[OF threw(2)] threw show ?thesis by (simp add: round_simps)
  next
    case (continued v s1 c')
    from E[OF continued(2)] N[OF continued(3)] continued show ?thesis
      by (simp add: round_simps)
  qed
  have rr: "replaceReducer (Suc (Suc n)) env s f = Some (r, s')"
    if "replaceReducer (Suc n) env s f = Some (r, s')" for s f r s'
    using that
  proof (cases rule: replaceReducer_SucE)
    case rejected
    then show ?thesis by (simp add: round_simps)
  next
    case (dispatched r1 c)
    from D[OF dispatched(2)] dispatched show ?thesis
      by (cases r1) (simp_all add: round_simps)
  qed
  from e d nl rr show ?case by blast
qed

lemma more_fuel_dispatch:
  "dispatch n env s a = Some x \<Longrightarrow> dispatch (n + k) env s a = Some x"
proof (induction k)
  case 0
  then show ?case by simp
next
  case (Suc k)
  obtain r s' c where x: "x = (r, s', c)" by (cases x)
  from Suc have "dispatch (n + k) env s a = Some (r, s', c)" by (simp add: x)
  with more_fuel_step[of "n + k" env] have "dispatch (Suc (n + k)) env s a = Some (r, s', c)"
    by blast
  then show ?case by (simp add: x)
qed

lemma more_fuel_exec:
  "exec n env s p = Some x \<Longrightarrow> exec (n + k) env s p = Some x"
proof (induction k)
  case 0
  then show ?case by simp
next
  case (Suc k)
  then have "exec (n + k) env s p = Some x" by simp
  with more_fuel_step[of "n + k" env] have "exec (Suc (n + k)) env s p = Some x"
    by blast
  then show ?case by simp
qed

section \<open>The subscriber arrays\<close>

lemma indexOf_absent: "x \<notin> set xs \<Longrightarrow> indexOf xs x = -1"
  by (induction xs) (auto simp: Let_def)

lemma indexOf_present: "x \<in> set xs \<Longrightarrow> 0 \<le> indexOf xs x \<and> indexOf xs x < int (length xs)"
  by (induction xs) (auto simp: Let_def)

lemma splice1_indexOf: "x \<in> set xs \<Longrightarrow> splice1 xs (indexOf xs x) = remove1 x xs"
proof (induction xs)
  case Nil
  then show ?case by simp
next
  case (Cons y ys)
  show ?case
  proof (cases "y = x")
    case True
    then show ?thesis by (simp add: splice1_def)
  next
    case False
    with Cons.prems have in_ys: "x \<in> set ys" by simp
    from indexOf_present[OF in_ys] have nonneg: "0 \<le> indexOf ys x" "indexOf ys x < int (length ys)"
      by simp_all
    from Cons.IH[OF in_ys] nonneg have "take (nat (indexOf ys x)) ys @ drop (nat (indexOf ys x) + 1) ys = remove1 x ys"
      by (simp add: splice1_def Let_def min_def)
    with False nonneg show ?thesis
      by (simp add: splice1_def Let_def min_def nat_add_distrib)
  qed
qed

lemma live_revoke:
  "h < length subs \<Longrightarrow> subs ! h = (l, True) \<Longrightarrow>
   mset (map fst (filter snd (subs[h := (l, False)]))) = mset (map fst (filter snd subs)) - {#l#}"
proof (induction subs arbitrary: h)
  case Nil
  then show ?case by simp
next
  case (Cons x xs)
  show ?case
  proof (cases h)
    case 0
    with Cons.prems show ?thesis by simp
  next
    case (Suc k)
    with Cons.prems have k: "k < length xs" "xs ! k = (l, True)" by simp_all
    from k have mem: "l \<in># mset (map fst (filter snd xs))"
      by (auto intro!: image_eqI[where x="(l, True)"] dest: nth_mem)
    from Cons.IH[OF k] mem Suc show ?thesis by (cases "snd x") simp_all
  qed
qed

lemma live_member:
  "h < length subs \<Longrightarrow> subs ! h = (l, True) \<Longrightarrow> l \<in># mset (map fst (filter snd subs))"
  by (auto intro!: image_eqI[where x="(l, True)"] dest: nth_mem)

lemma ensure_pending: "nextListeners s < length (arrays s) \<Longrightarrow> currentListeners s < length (arrays s) \<Longrightarrow>
   pending (ensureCanMutateNextListeners s) = pending s"
  by (simp add: ensureCanMutateNextListeners_def pending_def)

lemma subscribe_inv: "store_inv s \<Longrightarrow> store_inv (snd (subscribe s l))"
  by (auto simp: subscribe_def store_inv_def pending_def liveListeners_def Let_def
      ensureCanMutateNextListeners_def nth_append)

lemma unsubscribe_inv: "store_inv s \<Longrightarrow> store_inv (snd (unsubscribe s h))"
proof -
  assume inv: "store_inv s"
  show ?thesis
  proof (cases "h < length (subscriptions s) \<and> snd (subscriptions s ! h) \<and> \<not> isDispatching s")
    case False
    with inv show ?thesis by (auto simp: unsubscribe_def Let_def)
  next
    case True
    obtain l where l: "subscriptions s ! h = (l, True)" using True by (cases "subscriptions s ! h") auto
    from True have h: "h < length (subscriptions s)" by simp
    from inv have mem: "l \<in> set (pending s)"
      using live_member[OF h l] by (metis liveListeners_def store_inv_def set_mset_mset)
    let ?s1 = "s\<lparr>subscriptions := (subscriptions s)[h := (l, False)]\<rparr>"
    let ?s2 = "ensureCanMutateNextListeners ?s1"
    have p2: "pending ?s2 = pending s" using inv
      by (simp add: ensureCanMutateNextListeners_def pending_def store_inv_def)
    have a2: "currentListeners ?s2 < length (arrays ?s2)" "nextListeners ?s2 < length (arrays ?s2)"
      using inv by (auto simp: ensureCanMutateNextListeners_def store_inv_def)
    have sub2: "subscriptions ?s2 = (subscriptions s)[h := (l, False)]"
      by (simp add: ensureCanMutateNextListeners_def)
    have eq: "snd (unsubscribe s h) = ?s2\<lparr>arrays := (arrays ?s2)[nextListeners ?s2 := remove1 l (pending s)]\<rparr>"
      using True l p2 mem by (simp add: unsubscribe_def Let_def splice1_indexOf pending_def)
    show ?thesis unfolding eq using a2 sub2 inv live_revoke[OF h l]
      by (simp add: store_inv_def pending_def liveListeners_def)
  qed
qed

lemma exec_inv:
  "(\<forall>s p r s'. exec n env s p = Some (r, s') \<longrightarrow> (store_inv s \<longrightarrow> store_inv s')) \<and>
   (\<forall>s a r s' c. dispatch n env s a = Some (r, s', c) \<longrightarrow> (store_inv s \<longrightarrow> store_inv s')) \<and>
   (\<forall>s l i r s' c. notifyListeners n env s l i = Some (r, s', c) \<longrightarrow> (store_inv s \<longrightarrow> store_inv s')) \<and>
   (\<forall>s f r s'. replaceReducer n env s f = Some (r, s') \<longrightarrow> (store_inv s \<longrightarrow> store_inv s'))"
  by (rule run_preserves)
     (auto simp: subscribe_inv unsubscribe_inv, auto simp: store_inv_def pending_def liveListeners_def)

section \<open>Plain objects and the Dispatching flag\<close>


lemma size_protoRoot: "size (protoRoot ob) \<le> size ob"
  by (induction ob rule: protoRoot.induct) auto

lemma isPlainObject_iff:
  "isPlainObject v \<longleftrightarrow> (\<exists>root props. getPrototypeOf root = None \<and> v = Object (JsObj (Some root) props))"
proof (cases v)
  case (Object ob)
  obtain proto props where ob: "ob = JsObj proto props" by (cases ob)
  show ?thesis
  proof (cases proto)
    case None
    with Object ob show ?thesis by (simp add: isPlainObject_def)
  next
    case (Some p)
    obtain pp pprops where p: "p = JsObj pp pprops" by (cases p)
    show ?thesis
    proof (cases pp)
      case None
      with Object ob Some p show ?thesis by (simp add: isPlainObject_def)
    next
      case (Some q)
      have "size (protoRoot q) < size p" using size_protoRoot[of q] p Some by simp
      then have "p \<noteq> protoRoot q" by auto
      with Object ob \<open>proto = Some p\<close> p Some show ?thesis by (auto simp: isPlainObject_def)
    qed
  qed
qed (simp_all add: isPlainObject_def)

lemma flag_preserved:
  "(\<forall>s p r s'. exec n env s p = Some (r, s') \<longrightarrow> isDispatching s' = isDispatching s) \<and>
   (\<forall>s a r s' c. dispatch n env s a = Some (r, s', c) \<longrightarrow> isDispatching s' = isDispatching s) \<and>
   (\<forall>s l i r s' c. notifyListeners n env s l i = Some (r, s', c) \<longrightarrow>
      isDispatching s' = isDispatching s) \<and>
   (\<forall>s f r s'. replaceReducer n env s f = Some (r, s') \<longrightarrow> isDispatching s' = isDispatching s)"
proof (induction n)
  case 0
  show ?case by simp
next
  case (Suc n)
  have E: "\<And>s p r s'. exec n env s p = Some (r, s') \<Longrightarrow> isDispatching s' = isDispatching s"
    using Suc by blast
  have D: "\<And>s a r s' c. dispatch n env s a = Some (r, s', c) \<Longrightarrow> isDispatching s' = isDispatching s"
    using Suc by blast
  have N: "\<And>s l i r s' c. notifyListeners n env s l i = Some (r, s', c) \<Longrightarrow>
      isDispatching s' = isDispatching s"
    using Suc by blast
  have R: "\<And>s f r s'. replaceReducer n env s f = Some (r, s') \<Longrightarrow> isDispatching s' = isDispatching s"
    using Suc by blast
  have sub: "isDispatching (snd (subscribe s l)) = isDispatching s" for s l
    by (simp add: subscribe_def ensureCanMutateNextListeners_def Let_def)
  have unsub: "isDispatching (snd (unsubscribe s h)) = isDispatching s" for s h
    by (simp add: unsubscribe_def ensureCanMutateNextListeners_def Let_def)
  have e: "isDispatching s' = isDispatching s" if "exec (Suc n) env s p = Some (r, s')" for s p r s'
    using that
  proof (cases rule: exec_SucE)
    case (subscribe l k)
    from E[OF subscribe(2)] sub show ?thesis by simp
  next
    case (unsubscribe h k)
    from E[OF unsubscribe(2)] unsub show ?thesis by simp
  next
    case (dispatch a k r1 s1 c)
    from D[OF dispatch(2)] E[OF dispatch(3)] show ?thesis by simp
  next
    case (replaceReducer f k r1 s1)
    from R[OF replaceReducer(2)] E[OF replaceReducer(3)] show ?thesis by simp
  qed (auto simp: E)
  have d: "isDispatching s' = isDispatching s" if "dispatch (Suc n) env s a = Some (r, s', c)"
    for s a r s' c
    using that
  proof (cases rule: dispatch_SucE)
    case (notified v s1 r2)
    from N[OF notified(5)] notified(3) show ?thesis by simp
  qed auto
  have nl: "isDispatching s' = isDispatching s"
    if "notifyListeners (Suc n) env s l i = Some (r, s', c)" for s l i r s' c
    using that
  proof (cases rule: notifyListeners_SucE)
    case (continued v s1 c')
    from E[OF continued(2)] N[OF continued(3)] show ?thesis by simp
  qed (auto simp: E)
  have rr: "isDispatching s' = isDispatching s" if "replaceReducer (Suc n) env s f = Some (r, s')"
    for s f r s'
    using that
  proof (cases rule: replaceReducer_SucE)
    case (dispatched r1 c)
    from D[OF dispatched(2)] show ?thesis by simp
  qed auto
  from e d nl rr show ?case by blast
qed

text \<open>While the reducer runs, no call changes a variable other than \<open>currentReducer\<close>.\<close>

lemma transitioning_frame:
  "(\<forall>s p r s'. isDispatching s \<longrightarrow> exec n env s p = Some (r, s') \<longrightarrow>
      s' = s\<lparr>currentReducer := currentReducer s'\<rparr>) \<and>
   (\<forall>s f r s'. isDispatching s \<longrightarrow> replaceReducer n env s f = Some (r, s') \<longrightarrow>
      s' = s\<lparr>currentReducer := currentReducer s'\<rparr>)"
proof (induction n)
  case 0
  show ?case by simp
next
  case (Suc n)
  have E: "\<And>s p r s'. isDispatching s \<Longrightarrow> exec n env s p = Some (r, s') \<Longrightarrow>
      s' = s\<lparr>currentReducer := currentReducer s'\<rparr>"
    using Suc by blast
  have R: "\<And>s f r s'. isDispatching s \<Longrightarrow> replaceReducer n env s f = Some (r, s') \<Longrightarrow>
      s' = s\<lparr>currentReducer := currentReducer s'\<rparr>"
    using Suc by blast
  have D: "s' = s" if "isDispatching s" "dispatch n env s a = Some (r, s', c)" for s a r s' c
  proof (cases n)
    case 0
    with that show ?thesis by simp
  next
    case (Suc m)
    with that show ?thesis by (auto elim: dispatch_SucE)
  qed
  have e: "s' = s\<lparr>currentReducer := currentReducer s'\<rparr>"
    if busy: "isDispatching s" and run: "exec (Suc n) env s p = Some (r, s')" for s p r s'
    using run
  proof (cases rule: exec_SucE)
    case (getState k)
    from E[OF busy getState(2)] show ?thesis .
  next
    case (subscribe l k)
    from busy have "snd (subscribe s l) = s" by (simp add: subscribe_def)
    with E[OF busy, of "k (fst (subscribe s l))" r s'] subscribe(2) show ?thesis by simp
  next
    case (unsubscribe h k)
    from busy have "snd (unsubscribe s h) = s" by (simp add: unsubscribe_def Let_def)
    with E[OF busy, of "k (fst (unsubscribe s h))" r s'] unsubscribe(2) show ?thesis by simp
  next
    case (dispatch a k r1 s1 c)
    from D[OF busy dispatch(2)] E[OF busy, of "k r1" r s'] dispatch(3) show ?thesis by simp
  next
    case (replaceReducer f k r1 s1)
    from R[OF busy replaceReducer(2)] have 1: "s1 = s\<lparr>currentReducer := currentReducer s1\<rparr>" .
    then have "isDispatching s1" using busy by (metis store.select_convs(6) store.surjective store.update_convs(1))
    from E[OF this replaceReducer(3)] have "s' = s1\<lparr>currentReducer := currentReducer s'\<rparr>" .
    with 1 show ?thesis by (metis store.update_convs(1) store.surjective)
  qed auto
  have rr: "s' = s\<lparr>currentReducer := currentReducer s'\<rparr>"
    if busy: "isDispatching s" and run: "replaceReducer (Suc n) env s f = Some (r, s')" for s f r s'
    using run
  proof (cases rule: replaceReducer_SucE)
    case (dispatched r1 c)
    from D[of "s\<lparr>currentReducer := f\<rparr>", OF _ dispatched(2)] busy show ?thesis by simp
  qed auto
  from e rr show ?case by blast
qed

section \<open>Evaluating the small store\<close>

lemmas example_defs = exampleEnv_def exampleBody_def freshStore_def incAction_def nestedAction_def
  boomAction_def objectLiteral_def objectPrototype_def isPlainObject_def arg_def

lemmas store_defs = getState_def subscribe_def unsubscribe_def ensureCanMutateNextListeners_def
  splice1_def Let_def

lemma example_inc:
  "dispatch (Suc (Suc 0)) exampleEnv (freshStore (Func 0) (Number 0)) incAction =
     Some (Inr incAction, freshStore (Func 0) (Number 1), [])"
  by (simp add: round_simps example_defs)

lemma example_nested:
  "dispatch 4 exampleEnv (freshStore (Func 3) (Number 0)) nestedAction =
     Some (Inl ReducersMayNotDispatch, freshStore (Func 3) (Number 0), [])"
  by (simp add: eval_nat_numeral round_simps example_defs)

lemma example_after:
  "dispatch 2 exampleEnv (freshStore (Func 3) (Number 0)) incAction =
     Some (Inr incAction, freshStore (Func 3) (Number 0), [])"
  by (simp add: eval_nat_numeral round_simps example_defs)

lemma example_boom:
  "dispatch 2 exampleEnv (freshStore (Func 3) (Number 0)) boomAction =
     Some (Inl (Thrown (String ''boom'')), freshStore (Func 3) (Number 0), [])"
  by (simp add: eval_nat_numeral round_simps example_defs)

lemma example_valid: "validAction incAction" "validAction nestedAction" "validAction boomAction"
  by (simp_all add: validAction_def example_defs)

section \<open>The value that dispatch returns\<close>

text \<open>
  C9. Whenever \<open>dispatch\<close> returns a value, rather than throwing or running on, the value
  is the action it was called with.
\<close>

theorem dispatch_returns_action:
  assumes "dispatch n env s action = Some (Inr v, s', called)"
  shows "v = action"
proof (cases n)
  case 0
  with assms show ?thesis by simp
next
  case (Suc m)
  with assms show ?thesis by (auto elim!: dispatch_SucE split: sum.splits)
qed

theorem dispatch_returns_action_witness:
  "dispatch (Suc (Suc 0)) exampleEnv (freshStore (Func 0) (Number 0)) incAction =
     Some (Inr incAction, freshStore (Func 0) (Number 1), []) \<and> incAction = incAction"
  using example_inc dispatch_returns_action[OF example_inc] by simp

section \<open>Actions that dispatch rejects\<close>

lemma dispatch_rejects:
  "\<not> isPlainObject a \<Longrightarrow> dispatch (Suc n) env s a = Some (Inl ActionNotPlainObject, s, [])"
  "isPlainObject a \<Longrightarrow> typeof (member a ''type'') = ''undefined'' \<Longrightarrow>
     dispatch (Suc n) env s a = Some (Inl ActionTypeUndefined, s, [])"
  "validAction a \<Longrightarrow> isDispatching s \<Longrightarrow>
     dispatch (Suc n) env s a = Some (Inl ReducersMayNotDispatch, s, [])"
  by (simp_all add: round_simps validAction_def)

lemma dispatch_threw:
  "validAction a \<Longrightarrow> \<not> isDispatching s \<Longrightarrow>
   exec n env (s\<lparr>isDispatching := True\<rparr>)
     (callFunction env (currentReducer s) [currentState s, a]) = Some (Inl e, t) \<Longrightarrow>
   dispatch (Suc n) env s a = Some (Inl e, t\<lparr>isDispatching := False\<rparr>, [])"
  by (simp add: round_simps validAction_def)

lemma dispatch_succeeds:
  "validAction a \<Longrightarrow> \<not> isDispatching s \<Longrightarrow>
   exec n env (s\<lparr>isDispatching := True\<rparr>)
     (callFunction env (currentReducer s) [currentState s, a]) = Some (Inr v, t) \<Longrightarrow>
   notifyListeners n env
     (t\<lparr>currentState := v, isDispatching := False, currentListeners := nextListeners t\<rparr>)
     (nextListeners t) 0 = Some (Inr u, s', called) \<Longrightarrow>
   dispatch (Suc n) env s a = Some (Inr a, s', called)"
  by (simp add: round_simps validAction_def Let_def)

lemma member_objectLiteral:
  "map_of props key = None \<Longrightarrow> member (objectLiteral props) key = Undefined"
  by (simp add: objectLiteral_def objectPrototype_def)

lemma not_plain_instance:
  "getPrototypeOf ob = Some p \<Longrightarrow> getPrototypeOf p = Some q \<Longrightarrow> \<not> isPlainObject (Object ob)"
  by (auto simp: isPlainObject_iff)

lemma plain_objectLiteral: "isPlainObject (objectLiteral props)"
  by (simp add: isPlainObject_iff objectLiteral_def objectPrototype_def)

text \<open>
  C5. \<open>dispatch\<close> throws the error for an action that is not a plain object, and the error
  for an undefined \<^verbatim>\<open>type\<close> when the action is a plain object whose \<^verbatim>\<open>type\<close>
  reads as \<^verbatim>\<open>undefined\<close>, as it does when no \<^verbatim>\<open>type\<close> is written in an object
  literal. Both errors are of the kind InvalidAction, the store is returned as it was and no
  listener is called. \<^verbatim>\<open>null\<close>, every value that is not an object, and every object
  whose prototype has a prototype of its own, as an instance of a class has, are not plain.
\<close>

theorem invalid_action_rejected:
  "(\<not> isPlainObject action \<longrightarrow>
      dispatch (Suc n) env s action = Some (Inl ActionNotPlainObject, s, [])) \<and>
   (isPlainObject action \<and> typeof (member action ''type'') = ''undefined'' \<longrightarrow>
      dispatch (Suc n) env s action = Some (Inl ActionTypeUndefined, s, [])) \<and>
   (map_of props ''type'' = None \<longrightarrow>
      dispatch (Suc n) env s (objectLiteral props) = Some (Inl ActionTypeUndefined, s, [])) \<and>
   kind_of ActionNotPlainObject = InvalidAction \<and> kind_of ActionTypeUndefined = InvalidAction \<and>
   \<not> isPlainObject Null \<and>
   (typeof action \<noteq> ''object'' \<longrightarrow> \<not> isPlainObject action) \<and>
   (getPrototypeOf ob = Some p \<and> getPrototypeOf p = Some q \<longrightarrow> \<not> isPlainObject (Object ob))"
proof -
  have "dispatch (Suc n) env s (objectLiteral props) = Some (Inl ActionTypeUndefined, s, [])"
    if "map_of props ''type'' = None"
    using that by (simp add: dispatch_rejects(2) plain_objectLiteral member_objectLiteral)
  moreover have "\<not> isPlainObject Null" by (simp add: isPlainObject_def)
  moreover have "typeof action \<noteq> ''object'' \<longrightarrow> \<not> isPlainObject action"
    by (simp add: isPlainObject_def)
  ultimately show ?thesis
    by (simp add: dispatch_rejects not_plain_instance)
qed

theorem invalid_action_rejected_witness:
  "dispatch (Suc 0) exampleEnv (freshStore (Func 0) (Number 0)) (Number 7) =
     Some (Inl ActionNotPlainObject, freshStore (Func 0) (Number 0), []) \<and>
   dispatch (Suc 0) exampleEnv (freshStore (Func 0) (Number 0))
       (objectLiteral [(''type'', Undefined)]) =
     Some (Inl ActionTypeUndefined, freshStore (Func 0) (Number 0), []) \<and>
   dispatch (Suc 0) exampleEnv (freshStore (Func 0) (Number 0))
       (objectLiteral [(''payload'', Number 1)]) =
     Some (Inl ActionTypeUndefined, freshStore (Func 0) (Number 0), []) \<and>
   \<not> isPlainObject (Func 5) \<and>
   \<not> isPlainObject (Object (JsObj (Some (JsObj (Some objectPrototype) [])) [(''type'', String ''INC'')]))"
proof -
  have 1: "\<not> isPlainObject (Number 7)" by (simp add: isPlainObject_def)
  have 2: "isPlainObject (objectLiteral [(''type'', Undefined)]) \<and>
           typeof (member (objectLiteral [(''type'', Undefined)]) ''type'') = ''undefined''"
    by (simp add: example_defs)
  have 3: "map_of [(''payload'', Number 1)] ''type'' = None" by simp
  have 4: "typeof (Func 5) \<noteq> ''object''" by simp
  have 5: "getPrototypeOf (JsObj (Some (JsObj (Some objectPrototype) [])) [(''type'', String ''INC'')]) =
             Some (JsObj (Some objectPrototype) []) \<and>
           getPrototypeOf (JsObj (Some objectPrototype) []) = Some objectPrototype"
    by simp
  show ?thesis
    using invalid_action_rejected[of "Number 7" 0 exampleEnv "freshStore (Func 0) (Number 0)"] 1
      invalid_action_rejected[of "objectLiteral [(''type'', Undefined)]" 0 exampleEnv
        "freshStore (Func 0) (Number 0)"] 2
      invalid_action_rejected[of _ 0 exampleEnv "freshStore (Func 0) (Number 0)"
        "[(''payload'', Number 1)]"] 3
      invalid_action_rejected[of "Func 5"] 4
      invalid_action_rejected[of _ _ _ _ _
        "JsObj (Some (JsObj (Some objectPrototype) [])) [(''type'', String ''INC'')]"
        "JsObj (Some objectPrototype) []" objectPrototype] 5
    by blast
qed

section \<open>Revoked subscriptions\<close>

lemma revoked_kept:
  "(\<forall>s p r s'. exec n env s p = Some (r, s') \<longrightarrow> (revoked s h \<longrightarrow> revoked s' h)) \<and>
   (\<forall>s a r s' c. dispatch n env s a = Some (r, s', c) \<longrightarrow> (revoked s h \<longrightarrow> revoked s' h)) \<and>
   (\<forall>s l i r s' c. notifyListeners n env s l i = Some (r, s', c) \<longrightarrow>
      (revoked s h \<longrightarrow> revoked s' h)) \<and>
   (\<forall>s f r s'. replaceReducer n env s f = Some (r, s') \<longrightarrow> (revoked s h \<longrightarrow> revoked s' h))"
  by (rule run_preserves)
     (auto simp: revoked_def subscribe_def unsubscribe_def ensureCanMutateNextListeners_def
        Let_def nth_append nth_list_update)

lemma revoked_silent: "revoked s h \<Longrightarrow> unsubscribe s h = (Inr (), s)"
  by (simp add: revoked_def unsubscribe_def Let_def)

lemma unsubscribe_returned:
  "h < length (subscriptions s) \<Longrightarrow> fst (unsubscribe s h) = Inr () \<Longrightarrow>
   revoked (snd (unsubscribe s h)) h"
  by (auto simp: revoked_def unsubscribe_def Let_def ensureCanMutateNextListeners_def
      split: if_splits)

lemma revoked_exec: "revoked s h \<Longrightarrow> exec n env s p = Some (r, s') \<Longrightarrow> revoked s' h"
  using revoked_kept[of n env h] by blast

lemma revoked_dispatch:
  "revoked s h \<Longrightarrow> dispatch n env s a = Some (r, s', called) \<Longrightarrow> revoked s' h"
  using revoked_kept[of n env h] by blast

text \<open>
  C10. An unsubscribe function that has returned once is revoked. A revoked one returns at
  once and leaves every variable of the store as it was, also while the reducer is running,
  where the call made by the reducer's code continues with the plain return; and whatever
  code runs afterwards, it stays revoked.
\<close>

theorem revoked_unsubscribe_returns:
  "(h < length (subscriptions s) \<and> fst (unsubscribe s h) = Inr () \<longrightarrow>
      revoked (snd (unsubscribe s h)) h) \<and>
   (revoked s h \<longrightarrow> unsubscribe s h = (Inr (), s)) \<and>
   (revoked s h \<and> isDispatching s \<longrightarrow>
      unsubscribe s h = (Inr (), s) \<and>
      exec (Suc n) env s (CallUnsubscribe h k) = exec n env s (k (Inr ()))) \<and>
   (revoked s h \<and> exec n env s p = Some (r, s') \<longrightarrow> revoked s' h) \<and>
   (revoked s h \<and> dispatch n env s action = Some (r', s'', called) \<longrightarrow> revoked s'' h)"
proof -
  have "revoked s' h" if "revoked s h" "exec n env s p = Some (r, s')"
    using that by (rule revoked_exec)
  moreover have "revoked s'' h" if "revoked s h" "dispatch n env s action = Some (r', s'', called)"
    using that by (rule revoked_dispatch)
  ultimately show ?thesis
    by (simp add: revoked_silent unsubscribe_returned)
qed

theorem revoked_unsubscribe_returns_witness:
  "revoked \<lparr>currentReducer = Func 0, currentState = Number 0, arrays = [Nil, [Func 2], []],
            currentListeners = 1, nextListeners = 2, isDispatching = True,
            subscriptions = [(Func 2, False)]\<rparr> 0 \<and>
   unsubscribe \<lparr>currentReducer = Func 0, currentState = Number 0, arrays = [Nil, [Func 2], []],
            currentListeners = 1, nextListeners = 2, isDispatching = True,
            subscriptions = [(Func 2, False)]\<rparr> 0 =
     (Inr (), \<lparr>currentReducer = Func 0, currentState = Number 0, arrays = [Nil, [Func 2], []],
            currentListeners = 1, nextListeners = 2, isDispatching = True,
            subscriptions = [(Func 2, False)]\<rparr>) \<and>
   exec (Suc (Suc 0)) exampleEnv
     \<lparr>currentReducer = Func 0, currentState = Number 0, arrays = [Nil, [Func 2], []],
      currentListeners = 1, nextListeners = 2, isDispatching = True,
      subscriptions = [(Func 2, False)]\<rparr>
     (CallUnsubscribe 0 (\<lambda>r. case r of Inl e \<Rightarrow> Throw e | Inr u \<Rightarrow> Return Undefined)) =
     Some (Inr Undefined,
       \<lparr>currentReducer = Func 0, currentState = Number 0, arrays = [Nil, [Func 2], []],
        currentListeners = 1, nextListeners = 2, isDispatching = True,
        subscriptions = [(Func 2, False)]\<rparr>) \<and>
   revoked \<lparr>currentReducer = Func 0, currentState = Number 1, arrays = [Nil, [Func 2], []],
            currentListeners = 2, nextListeners = 2, isDispatching = False,
            subscriptions = [(Func 2, False)]\<rparr> 0"
proof -
  let ?s = "\<lparr>currentReducer = Func 0, currentState = Number 0, arrays = [Nil, [Func 2]],
            currentListeners = 1, nextListeners = 1, isDispatching = False,
            subscriptions = [(Func 2, True)]\<rparr>"
  let ?i = "\<lparr>currentReducer = Func 0, currentState = Number 0, arrays = [Nil, [Func 2], []],
            currentListeners = 1, nextListeners = 2, isDispatching = False,
            subscriptions = [(Func 2, False)]\<rparr>"
  let ?t = "\<lparr>currentReducer = Func 0, currentState = Number 0, arrays = [Nil, [Func 2], []],
            currentListeners = 1, nextListeners = 2, isDispatching = True,
            subscriptions = [(Func 2, False)]\<rparr>"
  let ?u = "\<lparr>currentReducer = Func 0, currentState = Number 1, arrays = [Nil, [Func 2], []],
            currentListeners = 2, nextListeners = 2, isDispatching = False,
            subscriptions = [(Func 2, False)]\<rparr>"
  let ?k = "\<lambda>r. case r of Inl e \<Rightarrow> Throw e | Inr (u::unit) \<Rightarrow> Return Undefined"
  have first: "unsubscribe ?s 0 = (Inr (), ?i)"
    by (simp add: store_defs)
  then have returned: "0 < length (subscriptions ?s) \<and> fst (unsubscribe ?s 0) = Inr ()" by simp
  from revoked_unsubscribe_returns[where s = ?s and h = 0, THEN conjunct1, THEN mp, OF returned]
    first
  have idle_rev: "revoked ?i 0" by simp
  then have rev: "revoked ?t 0" by (simp add: revoked_def)
  from revoked_unsubscribe_returns[where s = ?t and h = 0, THEN conjunct2, THEN conjunct1,
      THEN mp, OF rev]
  have again: "unsubscribe ?t 0 = (Inr (), ?t)" .
  have busy: "revoked ?t 0 \<and> isDispatching ?t" using rev by simp
  from revoked_unsubscribe_returns[where s = ?t and h = 0 and n = "Suc 0" and env = exampleEnv
      and k = ?k, THEN conjunct2, THEN conjunct2, THEN conjunct1, THEN mp, OF busy]
  have called: "exec (Suc (Suc 0)) exampleEnv ?t (CallUnsubscribe 0 ?k) =
      Some (Inr Undefined, ?t)"
    by simp
  have ran: "revoked ?t 0 \<and> exec (Suc 0) exampleEnv ?t (Return Undefined) =
      Some (Inr Undefined, ?t)"
    using rev by simp
  from revoked_unsubscribe_returns[where s = ?t and h = 0 and n = "Suc 0" and env = exampleEnv
      and p = "Return Undefined" and r = "Inr Undefined" and s' = ?t,
      THEN conjunct2, THEN conjunct2, THEN conjunct2, THEN conjunct1, THEN mp, OF ran]
  have kept: "revoked ?t 0" .
  have round: "revoked ?i 0 \<and> dispatch 3 exampleEnv ?i incAction = Some (Inr incAction, ?u, [])"
    using idle_rev by (simp add: eval_nat_numeral round_simps example_defs)
  from revoked_unsubscribe_returns[where s = ?i and h = 0 and n = 3 and env = exampleEnv
      and action = incAction and r' = "Inr incAction" and s'' = ?u and called = "[]",
      THEN conjunct2, THEN conjunct2, THEN conjunct2, THEN conjunct2, THEN mp, OF round]
  have later: "revoked ?u 0" .
  from kept again called later show ?thesis by (intro conjI)
qed

section \<open>Calls made while the reducer runs\<close>

lemma transitioning_calls:
  "isDispatching s \<Longrightarrow> getState s = Inl GetStateWhileDispatching"
  "isDispatching s \<Longrightarrow> typeof l = ''function'' \<Longrightarrow>
     subscribe s l = (Inl SubscribeWhileDispatching, s)"
  "isDispatching s \<Longrightarrow> live s h \<Longrightarrow> unsubscribe s h = (Inl UnsubscribeWhileDispatching, s)"
  by (simp_all add: getState_def subscribe_def unsubscribe_def live_def Let_def)

lemma idle_after_dispatch:
  "\<not> isDispatching s \<Longrightarrow> dispatch n env s a = Some (r, s', called) \<Longrightarrow> \<not> isDispatching s'"
  using flag_preserved[of n env] by blast

text \<open>
  C4. While \<open>isDispatching\<close> is set, \<open>getState\<close>, \<open>subscribe\<close> of a function, an
  unsubscribe function that has not been revoked, and \<open>dispatch\<close> of a valid action each
  throw, every one of them an error of the kind IllegalStateAccess, and leave the store as
  it was; the reducer's code that made the nested \<open>dispatch\<close> continues with that error.
  Whatever the reducer did, a dispatch that started with the flag clear ends with the flag
  clear, so the next dispatch of a valid action is not turned away: it returns its action
  as soon as the reducer and the listeners it calls return.
\<close>

theorem transitioning_rejects_calls:
  "(isDispatching s \<longrightarrow>
      getState s = Inl GetStateWhileDispatching \<and>
      (typeof listener = ''function'' \<longrightarrow>
         subscribe s listener = (Inl SubscribeWhileDispatching, s)) \<and>
      (live s h \<longrightarrow> unsubscribe s h = (Inl UnsubscribeWhileDispatching, s)) \<and>
      (validAction action \<longrightarrow>
         dispatch (Suc n) env s action = Some (Inl ReducersMayNotDispatch, s, []) \<and>
         exec (Suc (Suc n)) env s (CallDispatch action k) =
           exec (Suc n) env s (k (Inl ReducersMayNotDispatch)))) \<and>
   kind_of GetStateWhileDispatching = IllegalStateAccess \<and>
   kind_of SubscribeWhileDispatching = IllegalStateAccess \<and>
   kind_of UnsubscribeWhileDispatching = IllegalStateAccess \<and>
   kind_of ReducersMayNotDispatch = IllegalStateAccess \<and>
   (\<not> isDispatching s_idle \<and> dispatch m env s_idle first_action = Some (r, s_after, called) \<longrightarrow>
      \<not> isDispatching s_after \<and>
      (\<forall>m' action' v t u called'.
         validAction action' \<and>
         exec m' env (s_after\<lparr>isDispatching := True\<rparr>)
           (callFunction env (currentReducer s_after) [currentState s_after, action']) = Some (Inr v, t) \<and>
         notifyListeners m' env
           (t\<lparr>currentState := v, isDispatching := False, currentListeners := nextListeners t\<rparr>)
           (nextListeners t) 0 = Some (Inr (), u, called') \<longrightarrow>
         dispatch (Suc m') env s_after action' = Some (Inr action', u, called')))"
proof (intro conjI impI allI)
  assume outer: "\<not> isDispatching s_idle \<and> dispatch m env s_idle first_action = Some (r, s_after, called)"
  then have a: "\<not> isDispatching s_idle" and b: "dispatch m env s_idle first_action = Some (r, s_after, called)"
    by simp_all
  from a b show idle: "\<not> isDispatching s_after" by (rule idle_after_dispatch)
  fix m' action' v t u called'
  assume next_round: "validAction action' \<and>
         exec m' env (s_after\<lparr>isDispatching := True\<rparr>)
           (callFunction env (currentReducer s_after) [currentState s_after, action']) = Some (Inr v, t) \<and>
         notifyListeners m' env
           (t\<lparr>currentState := v, isDispatching := False, currentListeners := nextListeners t\<rparr>)
           (nextListeners t) 0 = Some (Inr (), u, called')"
  then have c: "validAction action'"
    and d: "exec m' env (s_after\<lparr>isDispatching := True\<rparr>)
           (callFunction env (currentReducer s_after) [currentState s_after, action']) = Some (Inr v, t)"
    and e: "notifyListeners m' env
           (t\<lparr>currentState := v, isDispatching := False, currentListeners := nextListeners t\<rparr>)
           (nextListeners t) 0 = Some (Inr (), u, called')"
    by simp_all
  from c idle d e show "dispatch (Suc m') env s_after action' = Some (Inr action', u, called')"
    by (rule dispatch_succeeds)
qed (simp_all add: transitioning_calls dispatch_rejects(3))

theorem transitioning_rejects_calls_witness:
  "getState \<lparr>currentReducer = Func 3, currentState = Number 0, arrays = [Nil, [Func 2]],
             currentListeners = 1, nextListeners = 1, isDispatching = True,
             subscriptions = [(Func 2, True)]\<rparr> = Inl GetStateWhileDispatching \<and>
   fst (subscribe \<lparr>currentReducer = Func 3, currentState = Number 0, arrays = [Nil, [Func 2]],
             currentListeners = 1, nextListeners = 1, isDispatching = True,
             subscriptions = [(Func 2, True)]\<rparr> (Func 2)) = Inl SubscribeWhileDispatching \<and>
   fst (unsubscribe \<lparr>currentReducer = Func 3, currentState = Number 0, arrays = [Nil, [Func 2]],
             currentListeners = 1, nextListeners = 1, isDispatching = True,
             subscriptions = [(Func 2, True)]\<rparr> 0) = Inl UnsubscribeWhileDispatching \<and>
   dispatch (Suc 0) exampleEnv
       \<lparr>currentReducer = Func 3, currentState = Number 0, arrays = [Nil, [Func 2]],
        currentListeners = 1, nextListeners = 1, isDispatching = True,
        subscriptions = [(Func 2, True)]\<rparr> incAction =
     Some (Inl ReducersMayNotDispatch,
       \<lparr>currentReducer = Func 3, currentState = Number 0, arrays = [Nil, [Func 2]],
        currentListeners = 1, nextListeners = 1, isDispatching = True,
        subscriptions = [(Func 2, True)]\<rparr>, []) \<and>
   dispatch 4 exampleEnv (freshStore (Func 3) (Number 0)) nestedAction =
     Some (Inl ReducersMayNotDispatch, freshStore (Func 3) (Number 0), []) \<and>
   dispatch (Suc (Suc 0)) exampleEnv (freshStore (Func 3) (Number 0)) incAction =
     Some (Inr incAction, freshStore (Func 3) (Number 0), [])"
proof -
  let ?T = "\<lparr>currentReducer = Func 3, currentState = Number 0, arrays = [Nil, [Func 2]],
             currentListeners = 1, nextListeners = 1, isDispatching = True,
             subscriptions = [(Func 2, True)]\<rparr>"
  let ?s = "freshStore (Func 3) (Number 0)"
  note inst = transitioning_rejects_calls[where s = ?T and listener = "Func 2" and h = 0
      and s_idle = ?s and m = 4 and env = exampleEnv and first_action = nestedAction
      and r = "Inl ReducersMayNotDispatch" and s_after = ?s and called = "[]"
      and action = incAction and n = 0]
  have busy: "isDispatching ?T" by simp
  have fn: "typeof (Func 2) = ''function''" by simp
  have alive: "live ?T 0" by (simp add: live_def)
  note while = inst[THEN conjunct1, THEN mp, OF busy]
  from while[THEN conjunct1] while[THEN conjunct2, THEN conjunct1, THEN mp, OF fn]
    while[THEN conjunct2, THEN conjunct2, THEN conjunct1, THEN mp, OF alive]
  have calls: "getState ?T = Inl GetStateWhileDispatching"
      "fst (subscribe ?T (Func 2)) = Inl SubscribeWhileDispatching"
      "fst (unsubscribe ?T 0) = Inl UnsubscribeWhileDispatching"
    by simp_all
  from while[THEN conjunct2, THEN conjunct2, THEN conjunct2, THEN mp, OF example_valid(1),
      THEN conjunct1]
  have nested: "dispatch (Suc 0) exampleEnv ?T incAction =
      Some (Inl ReducersMayNotDispatch, ?T, [])" .
  have outer: "\<not> isDispatching ?s \<and> dispatch 4 exampleEnv ?s nestedAction =
      Some (Inl ReducersMayNotDispatch, ?s, [])"
    using example_nested by (simp add: freshStore_def)
  have reducer: "exec (Suc 0) exampleEnv (?s\<lparr>isDispatching := True\<rparr>)
      (callFunction exampleEnv (currentReducer ?s) [currentState ?s, incAction]) =
      Some (Inr (Number 0), ?s\<lparr>isDispatching := True\<rparr>)"
    by (simp add: example_defs)
  have listeners: "notifyListeners (Suc 0) exampleEnv
      (?s\<lparr>isDispatching := True\<rparr>\<lparr>currentState := Number 0, isDispatching := False,
           currentListeners := nextListeners (?s\<lparr>isDispatching := True\<rparr>)\<rparr>)
      (nextListeners (?s\<lparr>isDispatching := True\<rparr>)) 0 = Some (Inr (), ?s, [])"
    by (simp add: round_simps example_defs)
  note after = inst[THEN conjunct2, THEN conjunct2, THEN conjunct2, THEN conjunct2,
      THEN conjunct2, THEN mp, OF outer]
  from after[THEN conjunct2, rule_format,
      OF conjI[OF example_valid(1) conjI[OF reducer listeners]]]
  have "dispatch (Suc (Suc 0)) exampleEnv ?s incAction = Some (Inr incAction, ?s, [])" .
  with calls nested outer show ?thesis by (simp del: One_nat_def)
qed

section \<open>A reducer that throws\<close>

lemma after_throw:
  assumes idle: "\<not> isDispatching s"
    and run: "exec n env (s\<lparr>isDispatching := True\<rparr>) p = Some (r, t)"
  shows "t\<lparr>isDispatching := False\<rparr> = s\<lparr>currentReducer := currentReducer t\<rparr>"
proof -
  have "isDispatching (s\<lparr>isDispatching := True\<rparr>)" by simp
  with transitioning_frame[of n env] run
  have "t = s\<lparr>isDispatching := True\<rparr>\<lparr>currentReducer := currentReducer t\<rparr>" by blast
  then obtain rd where "t = s\<lparr>isDispatching := True, currentReducer := rd\<rparr>" by simp
  with idle show ?thesis by (cases s) simp
qed

text \<open>
  C3. When the reducer throws during the dispatch of a valid action, started with the flag
  clear, \<open>dispatch\<close> throws the same error, under every bound that lets the reducer run
  to its throw, and calls no listener. The flag is clear afterwards, and the state and both
  subscriber sequences are as before: no variable of the store differs, except
  \<open>currentReducer\<close> where the reducer replaced it. The next dispatch of a valid action is
  not turned away: it returns its action as soon as the reducer and the listeners it calls
  return.
\<close>

theorem reducer_throws:
  assumes idle: "\<not> isDispatching s" and valid: "validAction action"
    and throws: "exec n env (s\<lparr>isDispatching := True\<rparr>)
                   (callFunction env (currentReducer s) [currentState s, action]) = Some (Inl e, t)"
  shows "\<exists>s'. (\<forall>k. dispatch (Suc n + k) env s action = Some (Inl e, s', [])) \<and>
           \<not> isDispatching s' \<and>
           currentState s' = currentState s \<and> committed s' = committed s \<and>
           pending s' = pending s \<and> s' = s\<lparr>currentReducer := currentReducer s'\<rparr> \<and>
           (\<forall>m action' v t' u called'.
              validAction action' \<and>
              exec m env (s'\<lparr>isDispatching := True\<rparr>)
                (callFunction env (currentReducer s') [currentState s', action']) =
                Some (Inr v, t') \<and>
              notifyListeners m env
                (t'\<lparr>currentState := v, isDispatching := False,
                    currentListeners := nextListeners t'\<rparr>)
                (nextListeners t') 0 = Some (Inr (), u, called') \<longrightarrow>
              dispatch (Suc m) env s' action' = Some (Inr action', u, called'))"
proof -
  let ?s' = "t\<lparr>isDispatching := False\<rparr>"
  have eq: "?s' = s\<lparr>currentReducer := currentReducer t\<rparr>"
    using idle throws by (rule after_throw)
  have "dispatch (Suc n) env s action = Some (Inl e, ?s', [])"
    using valid idle throws by (rule dispatch_threw)
  then have result: "\<forall>k. dispatch (Suc n + k) env s action = Some (Inl e, ?s', [])"
    by (blast intro: more_fuel_dispatch)
  have idle': "\<not> isDispatching ?s'" by simp
  have same: "currentState ?s' = currentState s" "committed ?s' = committed s"
      "pending ?s' = pending s"
    unfolding eq by (simp_all add: committed_def pending_def)
  have frame: "?s' = s\<lparr>currentReducer := currentReducer ?s'\<rparr>"
    using eq by simp
  have "dispatch (Suc m) env ?s' action' = Some (Inr action', u, called')"
    if "validAction action' \<and>
        exec m env (?s'\<lparr>isDispatching := True\<rparr>)
          (callFunction env (currentReducer ?s') [currentState ?s', action']) =
          Some (Inr v, t') \<and>
        notifyListeners m env
          (t'\<lparr>currentState := v, isDispatching := False, currentListeners := nextListeners t'\<rparr>)
          (nextListeners t') 0 = Some (Inr (), u, called')"
    for m action' v t' u called'
  proof -
    from that have c: "validAction action'"
      and d: "exec m env (?s'\<lparr>isDispatching := True\<rparr>)
          (callFunction env (currentReducer ?s') [currentState ?s', action']) =
          Some (Inr v, t')"
      and e: "notifyListeners m env
          (t'\<lparr>currentState := v, isDispatching := False, currentListeners := nextListeners t'\<rparr>)
          (nextListeners t') 0 = Some (Inr (), u, called')"
      by simp_all
    from c idle' d e show ?thesis by (rule dispatch_succeeds)
  qed
  with result idle' same frame show ?thesis by blast
qed

theorem reducer_throws_witness:
  "dispatch 2 exampleEnv (freshStore (Func 3) (Number 0)) boomAction =
     Some (Inl (Thrown (String ''boom'')), freshStore (Func 3) (Number 0), []) \<and>
   dispatch 2 exampleEnv (freshStore (Func 3) (Number 0)) incAction =
     Some (Inr incAction, freshStore (Func 3) (Number 0), []) \<and>
   (\<exists>s'. (\<forall>k. dispatch (Suc (Suc 0) + k) exampleEnv (freshStore (Func 3) (Number 0)) boomAction =
           Some (Inl (Thrown (String ''boom'')), s', [])) \<and>
         \<not> isDispatching s' \<and>
         currentState s' = currentState (freshStore (Func 3) (Number 0)) \<and>
         committed s' = committed (freshStore (Func 3) (Number 0)) \<and>
         pending s' = pending (freshStore (Func 3) (Number 0)) \<and>
         s' = (freshStore (Func 3) (Number 0))\<lparr>currentReducer := currentReducer s'\<rparr> \<and>
         (\<forall>m action' v t' u called'.
            validAction action' \<and>
            exec m exampleEnv (s'\<lparr>isDispatching := True\<rparr>)
              (callFunction exampleEnv (currentReducer s') [currentState s', action']) =
              Some (Inr v, t') \<and>
            notifyListeners m exampleEnv
              (t'\<lparr>currentState := v, isDispatching := False,
                  currentListeners := nextListeners t'\<rparr>)
              (nextListeners t') 0 = Some (Inr (), u, called') \<longrightarrow>
            dispatch (Suc m) exampleEnv s' action' = Some (Inr action', u, called')))"
proof -
  let ?s = "freshStore (Func 3) (Number 0)"
  have idle: "\<not> isDispatching ?s" by (simp add: freshStore_def)
  have throws: "exec (Suc 0) exampleEnv (?s\<lparr>isDispatching := True\<rparr>)
      (callFunction exampleEnv (currentReducer ?s) [currentState ?s, boomAction]) =
      Some (Inl (Thrown (String ''boom'')), ?s\<lparr>isDispatching := True\<rparr>)"
    by (simp add: example_defs)
  from reducer_throws[OF idle example_valid(3) throws] example_boom example_after
  show ?thesis by simp
qed

section \<open>The listeners that a round calls\<close>













lemma inv_dispatch:
  "store_inv s \<Longrightarrow> dispatch n env s a = Some (r, s', called) \<Longrightarrow> store_inv s'"
  using exec_inv[of n env] by blast

text \<open>Construction without an enhancer gives a store of which \<open>store_inv\<close> holds.\<close>

lemma store_inv_created:
  assumes "typeof preloadedState \<noteq> ''function''"
    and "createStore n env enh [reducer, preloadedState] = Some (Inr (Store s))"
  shows "store_inv s"
proof (cases n)
  case 0
  with assms(2) show ?thesis by simp
next
  case (Suc k)
  let ?init = "\<lparr>currentReducer = reducer, currentState = preloadedState, arrays = [Nil],
                currentListeners = 0, nextListeners = 0, isDispatching = False,
                subscriptions = []\<rparr>"
  from assms[unfolded Suc] obtain v called where
    d: "dispatch k env ?init (objectLiteral [(''type'', String (INIT env))]) =
          Some (Inr v, s, called)"
    by (auto simp: arg_def Let_def split: option.splits sum.splits if_splits)
  have "store_inv ?init" by (simp add: store_inv_def pending_def liveListeners_def)
  from inv_dispatch[OF this d] show ?thesis .
qed






section \<open>The composer runs from right to left\<close>

lemma mtry_assoc: "mtry (mtry p f) g = mtry p (\<lambda>r. mtry (f r) g)"
  by (induction p) simp_all

lemma mbind_assoc: "mbind (mbind p f) g = mbind p (\<lambda>x. mbind (f x) g)"
proof -
  have "(\<lambda>r. mtry (case r of Inl e \<Rightarrow> MThrow e | Inr v \<Rightarrow> f v)
                (\<lambda>r. case r of Inl e \<Rightarrow> MThrow e | Inr v \<Rightarrow> g v)) =
        (\<lambda>r. case r of Inl e \<Rightarrow> MThrow e
               | Inr v \<Rightarrow> mtry (f v) (\<lambda>r. case r of Inl e \<Rightarrow> MThrow e | Inr v \<Rightarrow> g v))"
    by (rule ext) (simp split: sum.split)
  then show ?thesis by (simp add: mbind_def mtry_assoc)
qed

lemma mbind_MReturn: "mbind (MReturn v) f = f v"
  by (simp add: mbind_def)

lemma mbind_MThrow: "mbind (MThrow e) f = MThrow e"
  by (simp add: mbind_def)

lemma rightToLeft_step:
  "rightToLeft (\<lambda>args. mbind (g args) (\<lambda>r. f [r])) gs =
   (\<lambda>args. mbind (rightToLeft g gs args) (\<lambda>r. f [r]))"
  by (cases gs) (simp_all add: mbind_assoc)

lemma foldl_rightToLeft:
  "foldl (\<lambda>a b. (\<lambda>args. mbind (b args) (\<lambda>r. a [r]))) f fs = rightToLeft f fs"
proof (induction fs arbitrary: f)
  case Nil
  show ?case by simp
next
  case (Cons g gs)
  show ?case by (simp add: Cons.IH rightToLeft_step)
qed

lemma compose_rightToLeft: "compose u (f # fs) = rightToLeft f fs"
proof (cases fs)
  case Nil
  then show ?thesis by (simp add: compose_def)
next
  case (Cons g gs)
  then show ?thesis by (simp add: compose_def foldl_rightToLeft del: rightToLeft.simps)
qed

text \<open>
  C7. \<^verbatim>\<open>compose()\<close> is the function that returns its first argument;
  \<^verbatim>\<open>compose(f)\<close> is \<open>f\<close> itself; \<^verbatim>\<open>compose(f, g, h)\<close> runs \<open>h\<close> on all
  the arguments, \<open>g\<close> on the one value \<open>h\<close> returned and \<open>f\<close> on the one value \<open>g\<close>
  returned, and so returns \<^verbatim>\<open>f(g(h(args)))\<close> when the three return values
  without calling anything. For any number of functions the result is the right-to-left
  application of the spec.
\<close>

theorem compose_right_to_left:
  "compose u [] = (\<lambda>args. MReturn (case args of [] \<Rightarrow> u | first # rest \<Rightarrow> first)) \<and>
   compose u [f] = f \<and>
   compose u [f, g, h] = (\<lambda>args. mbind (h args) (\<lambda>x. mbind (g [x]) (\<lambda>y. f [y]))) \<and>
   compose u (f # fs) = rightToLeft f fs \<and>
   ((\<forall>x. f [x] = MReturn (f' x)) \<and> (\<forall>x. g [x] = MReturn (g' x)) \<and>
    (\<forall>xs. h xs = MReturn (h' xs)) \<longrightarrow>
      compose u [f, g, h] args = MReturn (f' (g' (h' args))))"
proof (intro conjI impI)
  show "compose u [] = (\<lambda>args. MReturn (case args of [] \<Rightarrow> u | first # rest \<Rightarrow> first))"
    by (simp add: compose_def)
  show "compose u [f] = f" by (simp add: compose_def)
  show three: "compose u [f, g, h] = (\<lambda>args. mbind (h args) (\<lambda>x. mbind (g [x]) (\<lambda>y. f [y])))"
    by (simp add: compose_def)
  show "compose u (f # fs) = rightToLeft f fs" by (rule compose_rightToLeft)
  assume "(\<forall>x. f [x] = MReturn (f' x)) \<and> (\<forall>x. g [x] = MReturn (g' x)) \<and>
    (\<forall>xs. h xs = MReturn (h' xs))"
  then show "compose u [f, g, h] args = MReturn (f' (g' (h' args)))"
    by (simp add: three mbind_MReturn)
qed

theorem compose_right_to_left_witness:
  "compose (0::int) [\<lambda>xs. MReturn (sum_list xs + 1), \<lambda>xs. MReturn (sum_list xs * 2),
      \<lambda>xs. MReturn (sum_list xs)] [3, 4] = MReturn 15"
proof -
  have "(\<forall>x. (\<lambda>xs. MReturn (sum_list xs + 1)) [x] = MReturn ((\<lambda>x. x + 1) (x::int))) \<and>
        (\<forall>x. (\<lambda>xs. MReturn (sum_list xs * 2)) [x] = MReturn ((\<lambda>x. x * 2) (x::int))) \<and>
        (\<forall>xs. (\<lambda>xs. MReturn (sum_list xs)) xs = MReturn (sum_list (xs::int list)))"
    by simp
  from compose_right_to_left[where u = "0::int" and f = "\<lambda>xs. MReturn (sum_list xs + 1)"
      and g = "\<lambda>xs. MReturn (sum_list xs * 2)" and h = "\<lambda>xs. MReturn (sum_list xs)"
      and f' = "\<lambda>x. x + 1" and g' = "\<lambda>x. x * 2" and h' = sum_list and args = "[3, 4]",
      THEN conjunct2, THEN conjunct2, THEN conjunct2, THEN conjunct2, THEN mp, OF this]
  show ?thesis by simp
qed

section \<open>Construction with an enhancer\<close>

text \<open>
  C8. A function in the place of the initial state, with no enhancer after it, is taken
  as the enhancer, and the initial state as absent. Two functions in the places of the
  initial state and the enhancer, or of the enhancer and a fourth argument, make
  construction throw an error of the kind InvalidArgument. With an enhancer, what
  construction returns is what \<^verbatim>\<open>enhancer(createStore)(reducer, preloadedState)\<close>
  returns, and nothing else is done.
\<close>

theorem createStore_enhancer:
  "(typeof preloadedState = ''function'' \<longrightarrow>
      createStore (Suc n) env enh [reducer, preloadedState] =
      createStore (Suc n) env enh [reducer, Undefined, preloadedState]) \<and>
   (typeof preloadedState = ''function'' \<and> typeof enhancer = ''function'' \<longrightarrow>
      createStore (Suc n) env enh (reducer # preloadedState # enhancer # rest) =
      Some (Inl SeveralEnhancers)) \<and>
   (typeof enhancer = ''function'' \<and> typeof extra = ''function'' \<longrightarrow>
      createStore (Suc n) env enh (reducer # preloadedState # enhancer # extra # rest) =
      Some (Inl SeveralEnhancers)) \<and>
   kind_of SeveralEnhancers = InvalidArgument \<and>
   (typeof preloadedState \<noteq> ''function'' \<longrightarrow>
      createStore (Suc n) env enh [reducer, preloadedState, Func f] =
      enh f (createStore n env enh) [reducer, preloadedState]) \<and>
   createStore (Suc n) env enh [reducer, Func f] =
      enh f (createStore n env enh) [reducer, Undefined]"
  by (auto simp: arg_def Let_def typeof_function)

theorem createStore_enhancer_witness:
  "createStore 4 exampleEnv exampleEnhancer [Func 0, Func 7] =
     Some (Inr (Store (freshStore (Func 0) (Number 5)))) \<and>
   createStore 4 exampleEnv exampleEnhancer [Func 0, Undefined, Func 7] =
     Some (Inr (Store (freshStore (Func 0) (Number 5)))) \<and>
   createStore 1 exampleEnv exampleEnhancer [Func 0, Number 1, Func 8] =
     Some (Inr (Enhanced ())) \<and>
   createStore 1 exampleEnv exampleEnhancer [Func 0, Func 7, Func 8] =
     Some (Inl SeveralEnhancers) \<and>
   createStore 1 exampleEnv exampleEnhancer [Func 0, Number 1, Func 7, Func 8] =
     Some (Inl SeveralEnhancers)"
proof -
  note inst = createStore_enhancer[where n = 3 and env = exampleEnv and enh = exampleEnhancer
      and reducer = "Func 0" and preloadedState = "Func 7" and f = 7]
  have fn: "typeof (Func 7) = ''function''" by simp
  have inner: "createStore 3 exampleEnv exampleEnhancer [Func 0, Number 5] =
      Some (Inr (Store (freshStore (Func 0) (Number 5))))"
    by (simp add: eval_nat_numeral round_simps example_defs)
  from inst[THEN conjunct2, THEN conjunct2, THEN conjunct2, THEN conjunct2, THEN conjunct2]
  have "createStore 4 exampleEnv exampleEnhancer [Func 0, Func 7] =
      exampleEnhancer 7 (createStore 3 exampleEnv exampleEnhancer) [Func 0, Undefined]"
    by (simp add: eval_nat_numeral)
  with inner have 1: "createStore 4 exampleEnv exampleEnhancer [Func 0, Func 7] =
      Some (Inr (Store (freshStore (Func 0) (Number 5))))"
    by (simp add: exampleEnhancer_def arg_def)
  from inst[THEN conjunct1, THEN mp, OF fn] 1
  have 0: "createStore 4 exampleEnv exampleEnhancer [Func 0, Undefined, Func 7] =
      Some (Inr (Store (freshStore (Func 0) (Number 5))))"
    by (simp add: eval_nat_numeral)
  have notfn: "typeof (Number 1) \<noteq> ''function''" by simp
  from createStore_enhancer[where n = 0 and env = exampleEnv and enh = exampleEnhancer
      and reducer = "Func 0" and preloadedState = "Number 1" and f = 8,
      THEN conjunct2, THEN conjunct2, THEN conjunct2, THEN conjunct2, THEN conjunct1,
      THEN mp, OF notfn]
  have 2: "createStore 1 exampleEnv exampleEnhancer [Func 0, Number 1, Func 8] =
      Some (Inr (Enhanced ()))"
    by (simp add: exampleEnhancer_def)
  have both: "typeof (Func 7) = ''function'' \<and> typeof (Func 8) = ''function''" by simp
  from createStore_enhancer[where n = 0 and env = exampleEnv and enh = exampleEnhancer
      and reducer = "Func 0" and preloadedState = "Func 7" and enhancer = "Func 8"
      and rest = "[]", THEN conjunct2, THEN conjunct1, THEN mp, OF both]
  have 3: "createStore 1 exampleEnv exampleEnhancer [Func 0, Func 7, Func 8] =
      Some (Inl SeveralEnhancers)"
    by simp
  from createStore_enhancer[where n = 0 and env = exampleEnv and enh = exampleEnhancer
      and reducer = "Func 0" and preloadedState = "Number 1" and enhancer = "Func 7"
      and extra = "Func 8" and rest = "[]",
      THEN conjunct2, THEN conjunct2, THEN conjunct1, THEN mp, OF both]
  have 4: "createStore 1 exampleEnv exampleEnhancer [Func 0, Number 1, Func 7, Func 8] =
      Some (Inl SeveralEnhancers)"
    by simp
  from 1 0 2 3 4 show ?thesis by (intro conjI)
qed

section \<open>The state after a sequence of actions\<close>

lemma pure_reducer_run:
  assumes pure: "\<forall>st a. body env f [st, a] = Return (g st a) \<or> (\<exists>e. body env f [st, a] = Throw e)"
    and run: "exec n env s (callFunction env (Func f) [st, a]) = Some (Inr v, s')"
  shows "v = g st a \<and> s' = s"
proof (cases n)
  case 0
  with run show ?thesis by simp
next
  case (Suc m)
  from pure have "body env f [st, a] = Return (g st a) \<or> (\<exists>e. body env f [st, a] = Throw e)"
    by blast
  with run Suc show ?thesis by auto
qed

lemma quiet_dispatch:
  assumes pure: "\<forall>st a. body env f [st, a] = Return (g st a) \<or> (\<exists>e. body env f [st, a] = Throw e)"
    and q: "quiet s f"
    and run: "dispatch n env s a = Some (Inr v, s', called)"
  shows "quiet s' f \<and> currentState s' = g (currentState s) a"
proof (cases n)
  case 0
  with run show ?thesis by simp
next
  case (Suc m)
  from q have red: "currentReducer s = Func f" and idle: "\<not> isDispatching s"
    and none: "arrays s ! nextListeners s = []"
    by (simp_all add: quiet_def)
  from run[unfolded Suc] show ?thesis
  proof (cases rule: dispatch_SucE)
    case (notified v1 s1 r2)
    from pure_reducer_run[OF pure notified(4)[unfolded red]]
    have v1: "v1 = g (currentState s) a" and s1: "s1 = s\<lparr>isDispatching := True\<rparr>" by simp_all
    let ?s3 = "s1\<lparr>currentState := v1, isDispatching := False,
                   currentListeners := nextListeners s1\<rparr>"
    have empty: "arrays ?s3 ! nextListeners s1 = []" using none s1 by simp
    have "s' = ?s3"
    proof (cases m)
      case 0
      with notified(5) show ?thesis by simp
    next
      case (Suc k)
      from notified(5)[unfolded Suc] empty show ?thesis
        by (cases rule: notifyListeners_SucE) simp_all
    qed
    with s1 v1 red none show ?thesis by (simp add: quiet_def)
  qed simp_all
qed

lemma quiet_session:
  assumes pure: "\<forall>st a. body env f [st, a] = Return (g st a) \<or> (\<exists>e. body env f [st, a] = Throw e)"
  shows "quiet s f \<Longrightarrow> exec m env s (session actions) = Some (Inr v, s') \<Longrightarrow>
         v = foldl g (currentState s) actions \<and> getState s' = Inr v"
proof (induction actions arbitrary: s m)
  case Nil
  from Nil.prems(1) have idle: "\<not> isDispatching s" by (simp add: quiet_def)
  obtain k where m: "m = Suc (Suc k)"
    using Nil.prems(2) by (cases m; simp; cases "m - 1"; simp add: getState_def idle)
  from Nil.prems(2) idle show ?case by (auto simp: m getState_def)
next
  case (Cons a rest)
  obtain k where m: "m = Suc k" using Cons.prems(2) by (cases m) simp_all
  from Cons.prems(2)[unfolded m] obtain r1 s1 c where
    d: "dispatch k env s a = Some (r1, s1, c)"
    and e: "exec k env s1 (case r1 of Inl e \<Rightarrow> Throw e | Inr v \<Rightarrow> session rest) = Some (Inr v, s')"
    by (auto split: option.splits)
  show ?case
  proof (cases r1)
    case (Inl err)
    with e show ?thesis by (cases k) simp_all
  next
    case (Inr w)
    from quiet_dispatch[OF pure Cons.prems(1) d[unfolded Inr]]
    have q1: "quiet s1 f" and st: "currentState s1 = g (currentState s) a" by simp_all
    from e Inr have "exec k env s1 (session rest) = Some (Inr v, s')" by simp
    from Cons.IH[OF q1 this] st show ?thesis by simp
  qed
qed

lemma created_quiet:
  assumes pure: "\<forall>st a. body env f [st, a] = Return (g st a) \<or> (\<exists>e. body env f [st, a] = Throw e)"
    and notfn: "typeof preloadedState \<noteq> ''function''"
    and created: "createStore n env enh [Func f, preloadedState] = Some (Inr (Store s))"
  shows "quiet s f \<and>
         currentState s = g preloadedState (objectLiteral [(''type'', String (INIT env))])"
proof (cases n)
  case 0
  with created show ?thesis by simp
next
  case (Suc k)
  let ?init = "\<lparr>currentReducer = Func f, currentState = preloadedState, arrays = [Nil],
                currentListeners = 0, nextListeners = 0, isDispatching = False,
                subscriptions = []\<rparr>"
  from created[unfolded Suc] notfn obtain v called where
    d: "dispatch k env ?init (objectLiteral [(''type'', String (INIT env))]) =
          Some (Inr v, s, called)"
    by (auto simp: arg_def Let_def split: option.splits sum.splits)
  have "quiet ?init f" by (simp add: quiet_def)
  from quiet_dispatch[OF pure this d] show ?thesis by simp
qed

lemma silent_call:
  assumes "silent env" and "exec n env s (callFunction env l args) = Some (Inr v, s')"
  shows "s' = s"
proof (cases l)
  case (Func f)
  from assms(1) have "(\<exists>v. body env f args = Return v) \<or> (\<exists>e. body env f args = Throw e)"
    unfolding silent_def by blast
  with assms(2) Func show ?thesis by (cases n) auto
qed (use assms(2) in \<open>cases n; simp\<close>)+

lemma silent_notify:
  "silent env \<Longrightarrow> notifyListeners n env s a i = Some (Inr u, s', called) \<Longrightarrow> s' = s"
proof (induction n arbitrary: i called)
  case 0
  then show ?case by simp
next
  case (Suc n)
  from Suc.prems(2) show ?case
  proof (cases rule: notifyListeners_SucE)
    case (continued v s1 c')
    from silent_call[OF Suc.prems(1) continued(2)] have "s1 = s" .
    with continued(3) Suc.IH[OF Suc.prems(1)] show ?thesis by blast
  qed simp_all
qed

lemma silent_dispatch:
  assumes pure: "\<forall>st a. body env f [st, a] = Return (g st a) \<or> (\<exists>e. body env f [st, a] = Throw e)"
    and quiet: "silent env"
    and red: "currentReducer s = Func f" and idle: "\<not> isDispatching s"
    and run: "dispatch n env s a = Some (Inr v, s', called)"
  shows "s' = s\<lparr>currentState := g (currentState s) a, currentListeners := nextListeners s\<rparr>"
proof (cases n)
  case 0
  with run show ?thesis by simp
next
  case (Suc m)
  from run[unfolded Suc] show ?thesis
  proof (cases rule: dispatch_SucE)
    case (notified v1 s1 r2)
    from pure_reducer_run[OF pure notified(4)[unfolded red]]
    have v1: "v1 = g (currentState s) a" and s1: "s1 = s\<lparr>isDispatching := True\<rparr>" by simp_all
    from notified(6) obtain u where r2: "r2 = Inr u" by (cases r2) simp_all
    from silent_notify[OF quiet notified(5)[unfolded r2]] s1 v1 idle
    show ?thesis by (cases s) simp
  qed simp_all
qed

lemma silent_session:
  assumes pure: "\<forall>st a. body env f [st, a] = Return (g st a) \<or> (\<exists>e. body env f [st, a] = Throw e)"
    and quiet: "silent env"
  shows "currentReducer s = Func f \<Longrightarrow> \<not> isDispatching s \<Longrightarrow>
         exec m env s (session actions) = Some (Inr v, s') \<Longrightarrow>
         v = foldl g (currentState s) actions \<and> getState s' = Inr v"
proof (induction actions arbitrary: s m)
  case Nil
  obtain k where m: "m = Suc (Suc k)"
    using Nil.prems(3) Nil.prems(2)
    by (cases m; simp; cases "m - 1"; simp add: getState_def)
  from Nil.prems(3) Nil.prems(2) show ?case by (auto simp: m getState_def)
next
  case (Cons a rest)
  obtain k where m: "m = Suc k" using Cons.prems(3) by (cases m) simp_all
  from Cons.prems(3)[unfolded m] obtain r1 s1 c where
    d: "dispatch k env s a = Some (r1, s1, c)"
    and e: "exec k env s1 (case r1 of Inl e \<Rightarrow> Throw e | Inr v \<Rightarrow> session rest) = Some (Inr v, s')"
    by (auto split: option.splits)
  show ?case
  proof (cases r1)
    case (Inl err)
    with e show ?thesis by (cases k) simp_all
  next
    case (Inr w)
    from silent_dispatch[OF pure quiet Cons.prems(1,2) d[unfolded Inr]]
    have s1: "s1 = s\<lparr>currentState := g (currentState s) a,
                     currentListeners := nextListeners s\<rparr>" .
    then have "currentReducer s1 = Func f" "\<not> isDispatching s1"
      "currentState s1 = g (currentState s) a"
      using Cons.prems(1,2) by simp_all
    moreover from e Inr have "exec k env s1 (session rest) = Some (Inr v, s')" by simp
    ultimately show ?thesis using Cons.IH[of s1 k] by simp
  qed
qed

text \<open>
  C1. Let the reducer be a function of the state and the action: its code returns a value
  or throws, and calls nothing. Construct a store with it and dispatch the actions of a
  list one after the other. When every dispatch returns, \<open>getState\<close> gives the left fold
  of the reducer over the list, from the state that the reducer made of the preloaded
  state and the initialising action during construction. The same holds from the state
  of any idle store with this reducer, whatever its subscribers, when no function of the
  consumer calls the store.
\<close>

theorem state_is_fold:
  assumes pure: "\<forall>st a. body env f [st, a] = Return (g st a) \<or> (\<exists>e. body env f [st, a] = Throw e)"
  shows "(typeof preloadedState \<noteq> ''function'' \<and>
          createStore n env enh [Func f, preloadedState] = Some (Inr (Store s0)) \<and>
          exec m env s0 (session actions) = Some (Inr v, s') \<longrightarrow>
            v = foldl g (g preloadedState (objectLiteral [(''type'', String (INIT env))])) actions \<and>
            getState s' = Inr v) \<and>
         (silent env \<and> currentReducer s = Func f \<and> \<not> isDispatching s \<and>
          exec m env s (session actions) = Some (Inr v, s') \<longrightarrow>
            v = foldl g (currentState s) actions \<and> getState s' = Inr v)"
proof (intro conjI impI)
  assume "typeof preloadedState \<noteq> ''function'' \<and>
          createStore n env enh [Func f, preloadedState] = Some (Inr (Store s0)) \<and>
          exec m env s0 (session actions) = Some (Inr v, s')"
  then have notfn: "typeof preloadedState \<noteq> ''function''"
    and created: "createStore n env enh [Func f, preloadedState] = Some (Inr (Store s0))"
    and ran: "exec m env s0 (session actions) = Some (Inr v, s')"
    by simp_all
  from created_quiet[OF pure notfn created]
  have q: "quiet s0 f"
    and init: "currentState s0 = g preloadedState (objectLiteral [(''type'', String (INIT env))])"
    by simp_all
  from quiet_session[OF pure q ran] init
  show "v = foldl g (g preloadedState (objectLiteral [(''type'', String (INIT env))])) actions"
    and "getState s' = Inr v"
    by simp_all
next
  assume "silent env \<and> currentReducer s = Func f \<and> \<not> isDispatching s \<and>
          exec m env s (session actions) = Some (Inr v, s')"
  then have a: "silent env" "currentReducer s = Func f" "\<not> isDispatching s"
    "exec m env s (session actions) = Some (Inr v, s')"
    by simp_all
  from silent_session[OF pure a]
  show "v = foldl g (currentState s) actions" and "getState s' = Inr v" by simp_all
qed

lemma counter_pure:
  "\<forall>st a. body exampleEnv 0 [st, a] = Return (counter st a) \<or>
           (\<exists>e. body exampleEnv 0 [st, a] = Throw e)"
proof (intro allI)
  fix st a
  show "body exampleEnv 0 [st, a] = Return (counter st a) \<or>
        (\<exists>e. body exampleEnv 0 [st, a] = Throw e)"
    by (cases st) (simp_all add: exampleEnv_def exampleBody_def counter_def arg_def Let_def)
qed

lemma silentEnv_pure:
  "\<forall>st a. body silentEnv 0 [st, a] = Return (counter st a) \<or>
           (\<exists>e. body silentEnv 0 [st, a] = Throw e)"
  using counter_pure by (simp add: silentEnv_def exampleEnv_def)

lemma silentEnv_silent: "silent silentEnv"
  unfolding silent_def
proof (intro allI)
  fix l args
  show "(\<exists>v. body silentEnv l args = Return v) \<or> (\<exists>e. body silentEnv l args = Throw e)"
  proof (cases "l = 0")
    case True
    then show ?thesis
      by (simp add: silentEnv_def exampleEnv_def exampleBody_def Let_def split: jsval.split)
  next
    case False
    then show ?thesis by (simp add: silentEnv_def exampleEnv_def)
  qed
qed

lemma example_created:
  "createStore 3 exampleEnv exampleEnhancer [Func 0, Undefined] =
     Some (Inr (Store (freshStore (Func 0) (Number 0))))"
  by (simp add: eval_nat_numeral round_simps example_defs)

lemma example_session:
  "exec 5 exampleEnv (freshStore (Func 0) (Number 0)) (session [incAction, incAction]) =
     Some (Inr (Number 2), freshStore (Func 0) (Number 2))"
  by (simp add: eval_nat_numeral round_simps example_defs getState_def)

lemma example_subscribed_session:
  "exec 6 silentEnv
     \<lparr>currentReducer = Func 0, currentState = Number 5, arrays = [Nil, [Func 2]],
      currentListeners = 0, nextListeners = 1, isDispatching = False,
      subscriptions = [(Func 2, True)]\<rparr> (session [incAction, incAction]) =
   Some (Inr (Number 7),
     \<lparr>currentReducer = Func 0, currentState = Number 7, arrays = [Nil, [Func 2]],
      currentListeners = 1, nextListeners = 1, isDispatching = False,
      subscriptions = [(Func 2, True)]\<rparr>)"
  by (simp add: eval_nat_numeral round_simps example_defs silentEnv_def getState_def Let_def)

theorem state_is_fold_witness:
  "createStore 3 exampleEnv exampleEnhancer [Func 0, Undefined] =
     Some (Inr (Store (freshStore (Func 0) (Number 0)))) \<and>
   exec 5 exampleEnv (freshStore (Func 0) (Number 0)) (session [incAction, incAction]) =
     Some (Inr (Number 2), freshStore (Func 0) (Number 2)) \<and>
   Number 2 =
     foldl counter (counter Undefined (objectLiteral [(''type'', String (INIT exampleEnv))]))
       [incAction, incAction] \<and>
   getState (freshStore (Func 0) (Number 2)) = Inr (Number 2) \<and>
   Number 7 = foldl counter (Number 5) [incAction, incAction]"
proof -
  have notfn: "typeof Undefined \<noteq> ''function''" by simp
  note fold = state_is_fold[OF counter_pure, THEN conjunct1, THEN mp,
      OF conjI[OF notfn conjI[OF example_created example_session]]]
  let ?s = "\<lparr>currentReducer = Func 0, currentState = Number 5, arrays = [Nil, [Func 2]],
      currentListeners = 0, nextListeners = 1, isDispatching = False,
      subscriptions = [(Func 2, True)]\<rparr>"
  have red: "currentReducer ?s = Func 0" and idle: "\<not> isDispatching ?s" by simp_all
  note fold2 = state_is_fold[OF silentEnv_pure, THEN conjunct2, THEN mp,
      OF conjI[OF silentEnv_silent conjI[OF red conjI[OF idle example_subscribed_session]]]]
  from fold2 have seven: "Number 7 = foldl counter (Number 5) [incAction, incAction]"
    by simp
  from example_created example_session fold[THEN conjunct1] fold[THEN conjunct2] seven
  show ?thesis by (intro conjI)
qed

section \<open>Dispatching while the middleware is constructed\<close>

lemma mexec_premature:
  "premature st \<Longrightarrow> mexec n env st p = Some (r, st') \<Longrightarrow> premature st'"
proof (induction n arbitrary: st p)
  case 0
  then show ?case by simp
next
  case (Suc n)
  show ?case
  proof (cases p)
    case (MReturn v)
    with Suc.prems show ?thesis by simp
  next
    case (MThrow e)
    with Suc.prems show ?thesis by simp
  next
    case (ApiGetState k)
    with Suc.prems(2) have "mexec n env st (k (getState (store st))) = Some (r, st')" by simp
    from Suc.IH[OF Suc.prems(1) this] show ?thesis .
  next
    case (ApiDispatch a k)
    let ?st = "st\<lparr>forwarded := forwarded st @ [(a, dispatchVar st a)]\<rparr>"
    from Suc.prems(1) have "premature ?st" by (simp add: premature_def placeholder_def)
    moreover from ApiDispatch Suc.prems(2)
    have "mexec n env ?st (mtry (dispatchVar st a) k) = Some (r, st')" by simp
    ultimately show ?thesis by (rule Suc.IH)
  next
    case (StoreDispatch a k)
    with Suc.prems(2) obtain r1 s1 c where
      "dispatch n env (store st) a = Some (r1, s1, c)"
      and run: "mexec n env (st\<lparr>store := s1\<rparr>) (k r1) = Some (r, st')"
      by (auto split: option.splits)
    from Suc.prems(1) have "premature (st\<lparr>store := s1\<rparr>)" by (simp add: premature_def)
    from Suc.IH[OF this run] show ?thesis .
  qed
qed

lemma mapMiddlewares_premature:
  "premature st \<Longrightarrow> mapMiddlewares n env st mws = Some (r, st') \<Longrightarrow> premature st'"
proof (induction mws arbitrary: st r)
  case Nil
  then show ?case by simp
next
  case (Cons mw rest)
  from Cons.prems(2) obtain r1 st1 where 1: "mexec n env st mw = Some (r1, st1)"
    by (auto split: option.splits)
  from mexec_premature[OF Cons.prems(1) 1] have p1: "premature st1" .
  show ?case
  proof (cases r1)
    case (Inl e)
    with Cons.prems(2) 1 p1 show ?thesis by simp
  next
    case (Inr i)
    with Cons.prems(2) 1 obtain r2 where "mapMiddlewares n env st1 rest = Some (r2, st')"
      by (auto split: option.splits sum.splits)
    from Cons.IH[OF p1 this] show ?thesis .
  qed
qed

lemma placeholder_call:
  "dispatchVar st = placeholder \<Longrightarrow>
   mexec (Suc m) env st (ApiDispatch a k) =
   mexec m env (st\<lparr>forwarded := forwarded st @ [(a, MThrow DispatchingWhileConstructing)]\<rparr>)
     (k (Inl DispatchingWhileConstructing))"
  by (simp add: placeholder_def)

lemma enhance_cases:
  assumes "enhance n env middlewares s = Some (r, st)"
  obtains
    (factory) e where "r = Inl e"
      "mapMiddlewares n env \<lparr>store = s, dispatchVar = placeholder, forwarded = []\<rparr> middlewares =
         Some (Inl e, st)"
  | (interceptor) e chain st1 where "r = Inl e"
      "mapMiddlewares n env \<lparr>store = s, dispatchVar = placeholder, forwarded = []\<rparr> middlewares =
         Some (Inr chain, st1)"
      "mexec n env st1 (compose (\<lambda>action. MThrow NotCallable) chain [storeDispatch]) =
         Some (Inl e, st)"
  | (installed) d chain st1 st2 where "r = Inr d"
      "mapMiddlewares n env \<lparr>store = s, dispatchVar = placeholder, forwarded = []\<rparr> middlewares =
         Some (Inr chain, st1)"
      "mexec n env st1 (compose (\<lambda>action. MThrow NotCallable) chain [storeDispatch]) =
         Some (Inr d, st2)"
      "st = st2\<lparr>dispatchVar := d\<rparr>"
  using assms
  by (auto simp: enhance_def Let_def split: option.splits sum.splits)

text \<open>
  C6. Take the run of lines 22 to 51 on a store, to its end or to the throw that ends it.
  Every call of \<^verbatim>\<open>middlewareAPI.dispatch\<close> made during it, by a factory or by an
  interceptor that is being applied, ran the body of the placeholder, which throws the
  error of the kind PrematureDispatch; the code that made the call continues with that
  error. When the run returns, the variable holds the function that the composed
  interceptors returned on \<^verbatim>\<open>store.dispatch\<close>, which is the \<^verbatim>\<open>dispatch\<close>
  member of the result, and from then on a call of \<^verbatim>\<open>middlewareAPI.dispatch\<close> runs
  the body of that function.
\<close>

theorem premature_dispatch:
  assumes run: "enhance n env middlewares s = Some (r, st)"
  shows "(\<forall>x \<in> set (forwarded st). snd x = MThrow DispatchingWhileConstructing) \<and>
         kind_of DispatchingWhileConstructing = PrematureDispatch \<and>
         (\<forall>e. r = Inl e \<longrightarrow> dispatchVar st = placeholder) \<and>
         (\<forall>d. r = Inr d \<longrightarrow>
            dispatchVar st = d \<and>
            (\<exists>chain st1 st2.
               mapMiddlewares n env \<lparr>store = s, dispatchVar = placeholder, forwarded = []\<rparr>
                 middlewares = Some (Inr chain, st1) \<and>
               mexec n env st1 (compose (\<lambda>action. MThrow NotCallable) chain [storeDispatch]) =
                 Some (Inr d, st2) \<and>
               st = st2\<lparr>dispatchVar := d\<rparr>) \<and>
            (\<forall>m a k. mexec (Suc m) env st (ApiDispatch a k) =
               mexec m env (st\<lparr>forwarded := forwarded st @ [(a, d a)]\<rparr>) (mtry (d a) k))) \<and>
         (\<forall>st0 m a k. dispatchVar st0 = placeholder \<longrightarrow>
            mexec (Suc m) env st0 (ApiDispatch a k) =
            mexec m env
              (st0\<lparr>forwarded := forwarded st0 @ [(a, MThrow DispatchingWhileConstructing)]\<rparr>)
              (k (Inl DispatchingWhileConstructing)))"
proof -
  have early: "\<forall>st0 m a k. dispatchVar st0 = placeholder \<longrightarrow>
            mexec (Suc m) env st0 (ApiDispatch a k) =
            mexec m env
              (st0\<lparr>forwarded := forwarded st0 @ [(a, MThrow DispatchingWhileConstructing)]\<rparr>)
              (k (Inl DispatchingWhileConstructing))"
    by (intro allI impI) (rule placeholder_call)
  let ?init = "\<lparr>store = s, dispatchVar = placeholder, forwarded = []\<rparr>"
  have init: "premature ?init" by (simp add: premature_def)
  from run show ?thesis
  proof (cases rule: enhance_cases)
    case (factory e)
    from mapMiddlewares_premature[OF init factory(2)] factory(1) early show ?thesis
      by (simp add: premature_def)
  next
    case (interceptor e chain st1)
    from mapMiddlewares_premature[OF init interceptor(2)] have "premature st1" .
    from mexec_premature[OF this interceptor(3)] interceptor(1) early show ?thesis
      by (simp add: premature_def)
  next
    case (installed d chain st1 st2)
    from mapMiddlewares_premature[OF init installed(2)] have "premature st1" .
    from mexec_premature[OF this installed(3)] have p2: "premature st2" .
    have log: "\<forall>x \<in> set (forwarded st). snd x = MThrow DispatchingWhileConstructing"
      using p2 installed(4) by (simp add: premature_def)
    have var: "dispatchVar st = d" using installed(4) by simp
    have built: "\<exists>chain st1 st2.
               mapMiddlewares n env ?init middlewares = Some (Inr chain, st1) \<and>
               mexec n env st1 (compose (\<lambda>action. MThrow NotCallable) chain [storeDispatch]) =
                 Some (Inr d, st2) \<and>
               st = st2\<lparr>dispatchVar := d\<rparr>"
      using installed(2,3,4) by blast
    have call: "\<forall>m a k. mexec (Suc m) env st (ApiDispatch a k) =
               mexec m env (st\<lparr>forwarded := forwarded st @ [(a, d a)]\<rparr>) (mtry (d a) k)"
      using var by simp
    from log var built call installed(1) early show ?thesis by simp
  qed
qed

lemma example_enhance:
  "\<exists>r st. enhance 3 exampleEnv exampleMiddlewares (freshStore (Func 0) (Number 0)) = Some (r, st) \<and>
     forwarded st = [(incAction, MThrow DispatchingWhileConstructing)] \<and>
     (\<exists>st'. mexec 6 exampleEnv st
               (ApiDispatch incAction (\<lambda>r. case r of Inl e \<Rightarrow> MThrow e | Inr v \<Rightarrow> MReturn v)) =
             Some (Inr incAction, st') \<and>
           currentState (store st') = Number 1)"
  by (simp add: enhance_def exampleMiddlewares_def passThrough_def compose_def mbind_def
      placeholder_def storeDispatch_def eval_nat_numeral round_simps example_defs)

theorem premature_dispatch_witness:
  "\<exists>r st. enhance 3 exampleEnv exampleMiddlewares (freshStore (Func 0) (Number 0)) = Some (r, st) \<and>
     forwarded st = [(incAction, MThrow DispatchingWhileConstructing)] \<and>
     (\<forall>x \<in> set (forwarded st). snd x = MThrow DispatchingWhileConstructing) \<and>
     (\<exists>st'. mexec 6 exampleEnv st
               (ApiDispatch incAction (\<lambda>r. case r of Inl e \<Rightarrow> MThrow e | Inr v \<Rightarrow> MReturn v)) =
             Some (Inr incAction, st') \<and>
           currentState (store st') = Number 1)"
proof -
  from example_enhance obtain r st where
    run: "enhance 3 exampleEnv exampleMiddlewares (freshStore (Func 0) (Number 0)) = Some (r, st)"
    and log: "forwarded st = [(incAction, MThrow DispatchingWhileConstructing)]"
    and after: "\<exists>st'. mexec 6 exampleEnv st
               (ApiDispatch incAction (\<lambda>r. case r of Inl e \<Rightarrow> MThrow e | Inr v \<Rightarrow> MReturn v)) =
             Some (Inr incAction, st') \<and>
           currentState (store st') = Number 1"
    by blast
  from premature_dispatch[OF run]
  have "\<forall>x \<in> set (forwarded st). snd x = MThrow DispatchingWhileConstructing"
    by (rule conjunct1)
  with run log after show ?thesis by blast
qed

end
